theory Spec2Isabelle
  imports Main "HOL-Library.AList" "HOL-Library.Multiset"
begin

section \<open>Data model of final.py\<close>

text \<open>
  City names are Python strings.  A Python \<open>dict\<close> keeps its keys in insertion
  order, and the solver's enumeration order depends on that order, so a dict is an
  association list: a new key is appended at the end, an existing key is overwritten in
  place.  \<open>map_of d k\<close> is the lookup \<open>d[k]\<close> (\<open>None\<close> where Python raises
  \<open>KeyError\<close>), \<open>map fst d\<close> the keys in iteration order.  Distances are
  Python integers (the application parses them with \<open>int\<close>), hence unbounded.
\<close>

type_synonym city = string

type_synonym 'v dict = "(city \<times> 'v) list"

type_synonym adjacency = "(int dict) dict"

text \<open>The assignment \<open>d[k] = v\<close>.\<close>

primrec dict_set :: "city \<Rightarrow> 'v \<Rightarrow> 'v dict \<Rightarrow> 'v dict" where
  "dict_set k v [] = [(k, v)]"
| "dict_set k v (p # d) = (if fst p = k then (k, v) # d else p # dict_set k v d)"

text \<open>The keys of a dict, in iteration order; \<open>k in d\<close> is \<open>k \<in> set (keys d)\<close>.\<close>

definition keys :: "'v dict \<Rightarrow> city list" where
  "keys d = map fst d"

text \<open>\<open>class GraphModel\<close>: one attribute, \<open>adjacency_matrix\<close>, a dict of dicts.\<close>

record graph_model =
  adjacency_matrix :: adjacency

text \<open>\<open>GraphModel.__init__\<close>.\<close>

definition new_graph_model :: graph_model where
  "new_graph_model = \<lparr>adjacency_matrix = []\<rparr>"

text \<open>\<open>if c not in m: m[c] = {}\<close>.\<close>

definition ensure_key :: "city \<Rightarrow> adjacency \<Rightarrow> adjacency" where
  "ensure_key c m = (if c \<in> set (keys m) then m else dict_set c [] m)"

text \<open>
  \<open>m[a][b] = w\<close>: the row stored under \<open>a\<close> is mutated in place.  Python raises
  \<open>KeyError\<close> when \<open>a\<close> is not a key; both callers create the key first, so
  that branch is never taken (lemma \<open>keys_ensure_key\<close> below).
\<close>

definition set_entry :: "city \<Rightarrow> city \<Rightarrow> int \<Rightarrow> adjacency \<Rightarrow> adjacency" where
  "set_entry a b w m =
     (case map_of m a of
        None \<Rightarrow> m
      | Some row \<Rightarrow> dict_set a (dict_set b w row) m)"

text \<open>\<open>GraphModel.add_edge\<close> (lines 12-19): no check of its arguments, no exception.\<close>

definition add_edge :: "city \<Rightarrow> city \<Rightarrow> int \<Rightarrow> graph_model \<Rightarrow> graph_model" where
  "add_edge city1 city2 distance gm =
     (let m0 = adjacency_matrix gm;
          m1 = ensure_key city1 m0;
          m2 = ensure_key city2 m1;
          m3 = set_entry city1 city2 distance m2;
          m4 = set_entry city2 city1 distance m3
      in gm\<lparr>adjacency_matrix := m4\<rparr>)"

text \<open>\<open>GraphModel.reset\<close> (lines 21-22).\<close>

definition reset :: "graph_model \<Rightarrow> graph_model" where
  "reset gm = gm\<lparr>adjacency_matrix := []\<rparr>"

text \<open>
  The lookup \<open>m[u][v]\<close> on a dict of dicts; \<open>None\<close> stands for \<open>KeyError\<close>
  (either key missing).
\<close>

definition weight :: "adjacency \<Rightarrow> city \<Rightarrow> city \<Rightarrow> int option" where
  "weight m u v = (case map_of m u of None \<Rightarrow> None | Some row \<Rightarrow> map_of row v)"

subsection \<open>The caller's guard: \<open>Application.add_edge\<close>\<close>

text \<open>
  Lines 122-139.  The entry text is parsed by \<open>int(distance)\<close>; the result of that
  parse is the parameter \<open>parsed\<close> (\<open>None\<close> when \<open>int\<close> raises \<open>ValueError\<close>).
  Every \<open>ValueError\<close> is caught and shown as a message; the graph is only touched on
  the path that passes both checks.  The widgets are not modelled.
\<close>

datatype value_error = InvalidLiteral | SameCities | NegativeDistance

definition app_add_edge ::
  "city \<Rightarrow> city \<Rightarrow> int option \<Rightarrow> graph_model \<Rightarrow> value_error option \<times> graph_model" where
  "app_add_edge city1 city2 parsed gm =
     (case parsed of
        None \<Rightarrow> (Some InvalidLiteral, gm)
      | Some distance \<Rightarrow>
          if city1 = city2 then (Some SameCities, gm)
          else if distance < 0 then (Some NegativeDistance, gm)
          else (None, add_edge city1 city2 distance gm))"

subsection \<open>Sequences of operations\<close>

datatype op = AddEdge city city int | Reset

fun apply_op :: "op \<Rightarrow> graph_model \<Rightarrow> graph_model" where
  "apply_op (AddEdge u v w) gm = add_edge u v w gm"
| "apply_op Reset gm = reset gm"

text \<open>The state reached from a fresh \<open>GraphModel()\<close> by the operations, first to last.\<close>

definition run :: "op list \<Rightarrow> graph_model" where
  "run ops = fold apply_op ops new_graph_model"

section \<open>The networkx graph built by \<open>get_graph\<close>\<close>

text \<open>
  \<open>networkx.Graph\<close> keeps a dict of nodes and a dict of dicts \<open>_adj\<close>, whose keys are
  inserted together; \<open>G.nodes\<close> iterates in node insertion order and \<open>G[u][v]\<close> reads
  \<open>_adj[u][v]\<close>.  The graph is therefore modelled by \<open>_adj\<close> alone, with the only
  edge attribute \<open>weight\<close> as the entry.  \<open>Graph.add_edge(u, v, weight=w)\<close> adds
  \<open>u\<close>, then \<open>v\<close>, when new, and stores the attribute in both directions.
\<close>

type_synonym nx_graph = adjacency

definition nx_add_edge :: "city \<Rightarrow> city \<Rightarrow> int \<Rightarrow> nx_graph \<Rightarrow> nx_graph" where
  "nx_add_edge u v w G = set_entry v u w (set_entry u v w (ensure_key v (ensure_key u G)))"

definition nx_nodes :: "nx_graph \<Rightarrow> city list" where
  "nx_nodes G = keys G"

text \<open>
  \<open>GraphModel.get_graph\<close> (lines 24-30): the two nested loops over \<open>items()\<close>, in
  iteration order.  The method reads the model and writes only the new graph; it returns
  the graph together with the model as the call leaves it.
\<close>

definition get_graph :: "graph_model \<Rightarrow> nx_graph \<times> graph_model" where
  "get_graph gm =
     (fold (\<lambda>(city1, neighbors) G.
              fold (\<lambda>(city2, distance) G'. nx_add_edge city1 city2 distance G') neighbors G)
           (adjacency_matrix gm) [],
      gm)"

section \<open>\<open>TSPSolver.calculate_tsp_route\<close>\<close>

text \<open>
  \<open>itertools.permutations\<close>: all orderings of the positions of the input, in
  lexicographic order of positions.
\<close>

function permutations :: "'a list \<Rightarrow> 'a list list" where
  "permutations xs =
     (if xs = [] then [[]]
      else concat (map (\<lambda>i. map ((#) (xs ! i)) (permutations (take i xs @ drop (Suc i) xs)))
                       [0..<length xs]))"
  by pat_completeness auto
termination
  by (relation "measure length") auto

declare permutations.simps [simp del]

text \<open>
  Exceptions the solver can raise.  \<open>KeyError\<close> is what a failed lookup
  \<open>G[u][v]\<close> raises; the key it carries is not modelled.
\<close>

datatype error = KeyError | IndexError

text \<open>\<open>min_distance\<close>: \<open>float('inf')\<close> or an integer sum.\<close>

datatype distance = Infty | Fin int

text \<open>\<open>distance < min_distance\<close> for an integer \<open>distance\<close>.\<close>

fun dist_less :: "int \<Rightarrow> distance \<Rightarrow> bool" where
  "dist_less d Infty = True"
| "dist_less d (Fin m) = (d < m)"

text \<open>
  Lines 47-49: \<open>for i in range(len(route) - 1): distance += G[route[i]][route[i+1]]['weight']\<close>.
\<close>

fun path_distance :: "nx_graph \<Rightarrow> int \<Rightarrow> city list \<Rightarrow> error + int" where
  "path_distance G d (u # v # rest) =
     (case weight G u v of
        None \<Rightarrow> Inl KeyError
      | Some w \<Rightarrow> path_distance G (d + w) (v # rest))"
| "path_distance G d [u] = Inr d"
| "path_distance G d [] = Inr d"

text \<open>
  Lines 47-51 for one candidate: the inner loop, then the closing edge
  \<open>G[route[-1]][route[0]]['weight']\<close>.  (\<open>route\<close> is never empty in the solver;
  \<open>route[-1]\<close> on an empty list would raise \<open>IndexError\<close>.)
\<close>

fun tour_distance :: "nx_graph \<Rightarrow> city list \<Rightarrow> error + int" where
  "tour_distance G [] = Inl IndexError"
| "tour_distance G (u # rest) =
     (case path_distance G 0 (u # rest) of
        Inl e \<Rightarrow> Inl e
      | Inr d \<Rightarrow>
          (case weight G (last (u # rest)) u of
             None \<Rightarrow> Inl KeyError
           | Some w \<Rightarrow> Inr (d + w)))"

text \<open>
  Lines 45-55: the loop over the permutations, threading \<open>(min_distance, best_route)\<close>;
  an exception ends the loop and the call.
\<close>

fun search ::
  "nx_graph \<Rightarrow> city \<Rightarrow> city list list \<Rightarrow> distance \<times> city list option \<Rightarrow>
     error + (distance \<times> city list option)" where
  "search G start_city [] st = Inr st"
| "search G start_city (p # ps) (min_distance, best_route) =
     (case tour_distance G (start_city # p) of
        Inl e \<Rightarrow> Inl e
      | Inr d \<Rightarrow>
          if dist_less d min_distance
          then search G start_city ps (Fin d, Some (start_city # p))
          else search G start_city ps (min_distance, best_route))"

text \<open>
  What the call returns: the pair \<open>(None, message)\<close> of line 40, or
  \<open>(best_route, min_distance)\<close> of line 57.  The only message is
  the fixed text of line 40 saying that the start city is absent from the graph.
\<close>

datatype message = StartCityMissing

datatype outcome = Refused message | Best "city list option" distance

definition calculate_tsp_route ::
  "graph_model \<Rightarrow> city \<Rightarrow> (error + outcome) \<times> graph_model" where
  "calculate_tsp_route graph_model start_city =
     (let (G, gm) = get_graph graph_model;
          nodes = nx_nodes G
      in if start_city \<notin> set nodes then (Inr (Refused StartCityMissing), gm)
         else
           (case search G start_city
                   (permutations (filter (\<lambda>node. node \<noteq> start_city) nodes)) (Infty, None) of
              Inl e \<Rightarrow> (Inl e, gm)
            | Inr (min_distance, best_route) \<Rightarrow> (Inr (Best best_route min_distance), gm)))"

text \<open>The result of a call, and the graph the solver searches.\<close>

definition solve :: "graph_model \<Rightarrow> city \<Rightarrow> error + outcome" where
  "solve gm start_city = fst (calculate_tsp_route gm start_city)"

definition graph_of :: "graph_model \<Rightarrow> nx_graph" where
  "graph_of gm = fst (get_graph gm)"

section \<open>Routes, cycles and their cost, as the specification words them\<close>

text \<open>
  A cycle is given by the list of its nodes in visiting order; its edges are the
  consecutive pairs together with the closing edge from the last node back to the first.
\<close>

definition cycle_edges :: "city list \<Rightarrow> (city \<times> city) list" where
  "cycle_edges r = zip r (rotate1 r)"

text \<open>The sum of the weights of a list of edges; \<open>None\<close> when an edge is not in the graph.\<close>

fun sum_weights :: "nx_graph \<Rightarrow> (city \<times> city) list \<Rightarrow> int option" where
  "sum_weights G [] = Some 0"
| "sum_weights G ((u, v) # es) =
     (case weight G u v of
        None \<Rightarrow> None
      | Some w \<Rightarrow> (case sum_weights G es of None \<Rightarrow> None | Some s \<Rightarrow> Some (w + s)))"

text \<open>
  The cost of a cycle: the sum of consecutive edge weights including the closing edge.
\<close>

definition cycle_cost :: "nx_graph \<Rightarrow> city list \<Rightarrow> int option" where
  "cycle_cost G r = sum_weights G (cycle_edges r)"

text \<open>
  A Hamiltonian cycle visits every node of the graph exactly once.  It may be written
  down starting at any of its nodes and in either direction.
\<close>

definition hamiltonian_cycle :: "nx_graph \<Rightarrow> city list \<Rightarrow> bool" where
  "hamiltonian_cycle G r = (distinct r \<and> set r = set (nx_nodes G))"

text \<open>A graph is complete over its node set when any two distinct nodes are joined.\<close>

definition complete :: "nx_graph \<Rightarrow> bool" where
  "complete G =
     (\<forall>u \<in> set (nx_nodes G). \<forall>v \<in> set (nx_nodes G). u \<noteq> v \<longrightarrow> weight G u v \<noteq> None)"

section \<open>The calls \<open>get_graph\<close> makes\<close>

text \<open>
  The triples \<open>(city1, city2, distance)\<close> in the order in which the nested loops of
  \<open>get_graph\<close> pass them to \<open>G.add_edge\<close>.
\<close>

definition items :: "adjacency \<Rightarrow> (city \<times> city \<times> int) list" where
  "items m = concat (map (\<lambda>(city1, neighbors). map (\<lambda>(city2, distance). (city1, city2, distance)) neighbors) m)"

text \<open>
  The order in which the cities first occur when the matrix is read the way
  \<open>get_graph\<close> reads it: row by row, the key of the row before each of its
  neighbours.
\<close>

definition add_new :: "city \<Rightarrow> city list \<Rightarrow> city list" where
  "add_new c ks = (if c \<in> set ks then ks else ks @ [c])"

definition node_order :: "adjacency \<Rightarrow> city list" where
  "node_order m = fold (\<lambda>(city1, city2, distance) ks. add_new city2 (add_new city1 ks)) (items m) []"

text \<open>
  The candidate routes in the order in which the loop of line 45 visits them:
  \<open>[start_city] + list(route)\<close> for every permutation of the other nodes.
\<close>

definition candidates :: "graph_model \<Rightarrow> city \<Rightarrow> city list list" where
  "candidates gm start_city =
     map ((#) start_city)
       (permutations (filter (\<lambda>node. node \<noteq> start_city) (nx_nodes (graph_of gm))))"

section \<open>What the application can build\<close>

text \<open>
  The two buttons that change the graph: \<open>Application.add_edge\<close> with the two city
  entries and the parse of the distance entry, and \<open>Application.reset\<close>, which
  calls \<open>GraphModel.reset\<close>.
\<close>

datatype app_op = AppAddEdge city city "int option" | AppReset

fun app_apply :: "app_op \<Rightarrow> graph_model \<Rightarrow> graph_model" where
  "app_apply (AppAddEdge city1 city2 parsed) gm = snd (app_add_edge city1 city2 parsed gm)"
| "app_apply AppReset gm = reset gm"

definition app_run :: "app_op list \<Rightarrow> graph_model" where
  "app_run ops = fold app_apply ops new_graph_model"

section \<open>Example graphs\<close>

text \<open>Two cities joined by one road.\<close>

definition two_cities :: graph_model where
  "two_cities = run [AddEdge ''A'' ''B'' 5]"

text \<open>A path \<open>A - B - C\<close>: the edge \<open>(A, C)\<close> is missing.\<close>

definition path_abc :: graph_model where
  "path_abc = run [AddEdge ''A'' ''B'' 1, AddEdge ''B'' ''C'' 1]"

text \<open>The triangle of the specification, entered in two different orders.\<close>

definition triangle :: graph_model where
  "triangle = run [AddEdge ''A'' ''B'' 10, AddEdge ''B'' ''C'' 15, AddEdge ''A'' ''C'' 20]"

definition triangle' :: graph_model where
  "triangle' = run [AddEdge ''A'' ''C'' 20, AddEdge ''A'' ''B'' 10, AddEdge ''B'' ''C'' 15]"

text \<open>The same triangle again, after a first weight for \<open>(A, B)\<close> was overwritten.\<close>

definition triangle_rewritten :: graph_model where
  "triangle_rewritten =
     run [AddEdge ''A'' ''B'' 3, AddEdge ''B'' ''C'' 15, AddEdge ''A'' ''C'' 20,
          AddEdge ''A'' ''B'' 10]"

text \<open>
  Four cities, every road of length 1, entered in two orders that leave the keys of the
  matrix in the same order but the row of \<open>A\<close> in different orders.
\<close>

definition square :: graph_model where
  "square =
     run [AddEdge ''A'' ''B'' 1, AddEdge ''A'' ''C'' 1, AddEdge ''A'' ''D'' 1,
          AddEdge ''B'' ''C'' 1, AddEdge ''B'' ''D'' 1, AddEdge ''C'' ''D'' 1]"

definition square' :: graph_model where
  "square' =
     run [AddEdge ''A'' ''B'' 1, AddEdge ''B'' ''C'' 1, AddEdge ''A'' ''D'' 1,
          AddEdge ''A'' ''C'' 1, AddEdge ''B'' ''D'' 1, AddEdge ''C'' ''D'' 1]"

text \<open>A complete graph on four cities whose tours differ in cost (10, 24 and 26).\<close>

definition four_cities :: graph_model where
  "four_cities =
     run [AddEdge ''A'' ''B'' 1, AddEdge ''B'' ''C'' 2, AddEdge ''C'' ''D'' 3,
          AddEdge ''D'' ''A'' 4, AddEdge ''A'' ''C'' 10, AddEdge ''B'' ''D'' 10]"

section \<open>Basic facts about dicts\<close>

lemma dict_set_update: "dict_set k v d = AList.update k v d"
  by (induction d) auto

lemma map_of_dict_set: "map_of (dict_set k v d) = (map_of d)(k \<mapsto> v)"
  by (simp add: dict_set_update update_conv')

lemma keys_dict_set: "set (keys (dict_set k v d)) = insert k (set (keys d))"
  using dom_update [of k v d] by (simp add: dict_set_update keys_def)

lemma dict_set_same: "map_of d k = Some v \<Longrightarrow> dict_set k v d = d"
  by (simp add: dict_set_update update_triv)

lemma distinct_dict_set: "distinct (keys d) \<Longrightarrow> distinct (keys (dict_set k v d))"
  by (simp add: dict_set_update distinct_update keys_def)

lemma map_of_None_keys: "map_of d k = None \<longleftrightarrow> k \<notin> set (keys d)"
  by (simp add: map_of_eq_None_iff keys_def)

lemma map_of_Some_keys: "map_of d k = Some v \<Longrightarrow> k \<in> set (keys d)"
  using map_of_None_keys [of d k] by auto

lemma keys_ensure_key: "set (keys (ensure_key c m)) = insert c (set (keys m))"
  by (auto simp: ensure_key_def keys_dict_set)

lemma map_of_ensure_key:
  "map_of (ensure_key c m) k = (if k = c \<and> c \<notin> set (keys m) then Some [] else map_of m k)"
  by (simp add: ensure_key_def map_of_dict_set)

lemma weight_ensure_key: "weight (ensure_key c m) a b = weight m a b"
proof (cases "a = c \<and> c \<notin> set (keys m)")
  case True
  then have "map_of m a = None" by (simp add: map_of_None_keys)
  with True show ?thesis by (simp add: weight_def map_of_ensure_key)
next
  case False
  then show ?thesis by (auto simp add: weight_def map_of_ensure_key)
qed

lemma keys_set_entry: "set (keys (set_entry a b w m)) = set (keys m)"
proof (cases "map_of m a")
  case None
  then show ?thesis by (simp add: set_entry_def)
next
  case (Some row)
  then have "a \<in> set (keys m)" by (rule map_of_Some_keys)
  with Some show ?thesis
    by (auto simp: set_entry_def keys_dict_set)
qed

lemma weight_set_entry_same:
  assumes "a \<in> set (keys m)"
  shows "weight (set_entry a b w m) a b = Some w"
proof -
  from assms obtain row where row: "map_of m a = Some row"
    using map_of_None_keys [of m a] by auto
  show ?thesis
    by (simp add: set_entry_def weight_def row map_of_dict_set)
qed

lemma weight_set_entry_other:
  assumes "x \<noteq> a \<or> y \<noteq> b"
  shows "weight (set_entry a b w m) x y = weight m x y"
proof (cases "map_of m a")
  case None
  then show ?thesis by (simp add: set_entry_def)
next
  case (Some row)
  show ?thesis
  proof (cases "x = a")
    case True
    with assms have "y \<noteq> b" by simp
    with True Some show ?thesis
      by (simp add: set_entry_def weight_def map_of_dict_set)
  next
    case False
    with Some show ?thesis
      by (simp add: set_entry_def weight_def map_of_dict_set)
  qed
qed

lemma set_entry_same: "weight m a b = Some w \<Longrightarrow> set_entry a b w m = m"
  by (auto simp: set_entry_def weight_def dict_set_same split: option.splits)

lemma keys_nx_add_edge:
  "set (keys (nx_add_edge u v w m)) = insert u (insert v (set (keys m)))"
  by (auto simp: nx_add_edge_def keys_set_entry keys_ensure_key)

lemma weight_nx_add_edge_fwd: "weight (nx_add_edge u v w m) u v = Some w"
proof -
  let ?m2 = "ensure_key v (ensure_key u m)"
  have k2: "u \<in> set (keys ?m2)"
    by (simp add: keys_ensure_key)
  have k3: "v \<in> set (keys (set_entry u v w ?m2))"
    by (simp add: keys_set_entry keys_ensure_key)
  show ?thesis
  proof (cases "u = v")
    case True
    then show ?thesis
      unfolding nx_add_edge_def using weight_set_entry_same [OF k3, of u w] by simp
  next
    case False
    then have "weight (nx_add_edge u v w m) u v = weight (set_entry u v w ?m2) u v"
      unfolding nx_add_edge_def by (intro weight_set_entry_other) simp
    then show ?thesis
      by (simp add: weight_set_entry_same [OF k2])
  qed
qed

lemma weight_nx_add_edge_bwd: "weight (nx_add_edge u v w m) v u = Some w"
proof -
  have "v \<in> set (keys (set_entry u v w (ensure_key v (ensure_key u m))))"
    by (simp add: keys_set_entry keys_ensure_key)
  then show ?thesis
    unfolding nx_add_edge_def by (rule weight_set_entry_same)
qed

lemma weight_nx_add_edge_other:
  assumes "x \<noteq> u \<or> y \<noteq> v" and "x \<noteq> v \<or> y \<noteq> u"
  shows "weight (nx_add_edge u v w m) x y = weight m x y"
proof -
  have "weight (nx_add_edge u v w m) x y =
        weight (set_entry u v w (ensure_key v (ensure_key u m))) x y"
    unfolding nx_add_edge_def by (rule weight_set_entry_other [OF assms(2)])
  also have "\<dots> = weight (ensure_key v (ensure_key u m)) x y"
    by (rule weight_set_entry_other [OF assms(1)])
  also have "\<dots> = weight m x y"
    by (simp only: weight_ensure_key)
  finally show ?thesis .
qed

lemma nx_add_edge_idem: "nx_add_edge u v w (nx_add_edge u v w m) = nx_add_edge u v w m"
proof -
  let ?m = "nx_add_edge u v w m"
  have k: "u \<in> set (keys ?m)" "v \<in> set (keys ?m)"
    by (simp_all add: keys_nx_add_edge)
  have e: "ensure_key v (ensure_key u ?m) = ?m"
    using k by (simp add: ensure_key_def)
  have w1: "weight ?m u v = Some w"
    by (rule weight_nx_add_edge_fwd)
  have w2: "weight ?m v u = Some w"
    by (rule weight_nx_add_edge_bwd)
  have "nx_add_edge u v w ?m = set_entry v u w (set_entry u v w ?m)"
    by (subst nx_add_edge_def) (simp only: e)
  also have "\<dots> = ?m"
    by (simp only: set_entry_same [OF w1] set_entry_same [OF w2])
  finally show ?thesis .
qed

lemma add_edge_nx: "add_edge u v w gm = gm\<lparr>adjacency_matrix := nx_add_edge u v w (adjacency_matrix gm)\<rparr>"
  by (simp add: add_edge_def nx_add_edge_def Let_def)

lemma matrix_add_edge: "adjacency_matrix (add_edge u v w gm) = nx_add_edge u v w (adjacency_matrix gm)"
  by (simp add: add_edge_nx)

lemma weight_empty: "weight [] u v = None"
  by (simp add: weight_def)

lemma nx_add_edge_symmetric:
  assumes "\<And>x y. weight m x y = weight m y x"
  shows "weight (nx_add_edge a b w m) u v = weight (nx_add_edge a b w m) v u"
proof (cases "(u = a \<and> v = b) \<or> (u = b \<and> v = a)")
  case True
  then show ?thesis
    using weight_nx_add_edge_fwd [of a b w m] weight_nx_add_edge_bwd [of a b w m] by auto
next
  case False
  then have 1: "u \<noteq> a \<or> v \<noteq> b" and 2: "u \<noteq> b \<or> v \<noteq> a" by blast+
  have 3: "v \<noteq> a \<or> u \<noteq> b" and 4: "v \<noteq> b \<or> u \<noteq> a" using False by blast+
  show ?thesis
    by (simp only: weight_nx_add_edge_other [OF 1 2] weight_nx_add_edge_other [OF 3 4] assms)
qed

lemma run_snoc: "run (ops @ [x]) = apply_op x (run ops)"
  by (simp add: run_def)

lemma run_symmetric:
  "weight (adjacency_matrix (run ops)) u v = weight (adjacency_matrix (run ops)) v u"
proof (induction ops arbitrary: u v rule: rev_induct)
  case Nil
  then show ?case by (simp add: run_def new_graph_model_def weight_empty)
next
  case (snoc x ops)
  show ?case
  proof (cases x)
    case (AddEdge a b w)
    then show ?thesis
      using nx_add_edge_symmetric [of "adjacency_matrix (run ops)" a b w u v] snoc.IH
      by (simp add: run_snoc matrix_add_edge)
  next
    case Reset
    then show ?thesis by (simp add: run_snoc reset_def weight_empty)
  qed
qed

section \<open>Claims about the graph store\<close>

text \<open>
  C10.  \<open>add_edge\<close> is idempotent: performing \<open>add_edge(u, v, w)\<close> twice in
  succession leaves exactly the state that performing it once leaves, key order included.
  The nodes need not even be distinct.
\<close>

theorem add_edge_idempotent:
  "add_edge u v w (add_edge u v w gm) = add_edge u v w gm"
  by (simp add: add_edge_nx nx_add_edge_idem)

text \<open>
  C5.  In every state reached from a fresh model by \<open>add_edge\<close> and \<open>reset\<close>
  calls, every recorded entry \<open>(u, v, w)\<close> has its mirror \<open>(v, u, w)\<close>; and
  a further \<open>add_edge(a, b, w')\<close>, on a pair that is already there or not, leaves
  \<open>w'\<close> in both directions.
\<close>

theorem adjacency_symmetric:
  "(weight (adjacency_matrix (run ops)) u v = Some w \<longrightarrow>
      weight (adjacency_matrix (run ops)) v u = Some w)
   \<and> weight (adjacency_matrix (run (ops @ [AddEdge a b w']))) a b = Some w'
   \<and> weight (adjacency_matrix (run (ops @ [AddEdge a b w']))) b a = Some w'"
  using run_symmetric [of ops u v]
  by (simp add: run_snoc matrix_add_edge weight_nx_add_edge_fwd weight_nx_add_edge_bwd)

theorem adjacency_symmetric_witness:
  "weight (adjacency_matrix (run [AddEdge ''A'' ''B'' 10, AddEdge ''A'' ''B'' 7])) ''A'' ''B'' = Some 7
   \<and> weight (adjacency_matrix (run [AddEdge ''A'' ''B'' 10, AddEdge ''A'' ''B'' 7])) ''B'' ''A'' = Some 7"
proof -
  have h: "weight (adjacency_matrix (run [AddEdge ''A'' ''B'' 10, AddEdge ''A'' ''B'' 7])) ''A'' ''B'' = Some 7"
    by (simp add: run_def new_graph_model_def add_edge_def ensure_key_def set_entry_def
        keys_def weight_def)
  from adjacency_symmetric [of "[AddEdge ''A'' ''B'' 10, AddEdge ''A'' ''B'' 7]" "''A''" "''B''" 7] h
  show ?thesis by blast
qed

text \<open>
  C4, as the code has it.  \<open>GraphModel.add_edge\<close> checks nothing and never fails: for
  every \<open>u\<close>, \<open>v\<close>, \<open>w\<close> (also \<open>u = v\<close> or \<open>w < 0\<close>) it stores \<open>w\<close>
  under \<open>(u, v)\<close> and \<open>(v, u)\<close>, leaves every other entry as it was and adds
  only \<open>u\<close> and \<open>v\<close> to the nodes.  The rejection of \<open>u = v\<close> and of
  \<open>w < 0\<close> is made by the caller \<open>Application.add_edge\<close>, which then reports a
  message and leaves the graph unchanged.
\<close>

theorem add_edge_effect:
  "weight (adjacency_matrix (add_edge u v w gm)) u v = Some w
   \<and> weight (adjacency_matrix (add_edge u v w gm)) v u = Some w
   \<and> ((x \<noteq> u \<or> y \<noteq> v) \<and> (x \<noteq> v \<or> y \<noteq> u) \<longrightarrow>
        weight (adjacency_matrix (add_edge u v w gm)) x y = weight (adjacency_matrix gm) x y)
   \<and> set (keys (adjacency_matrix (add_edge u v w gm))) =
        insert u (insert v (set (keys (adjacency_matrix gm))))
   \<and> (u = v \<or> w < 0 \<longrightarrow> (\<exists>e. app_add_edge u v (Some w) gm = (Some e, gm)))"
proof -
  have "u = v \<or> w < 0 \<longrightarrow> (\<exists>e. app_add_edge u v (Some w) gm = (Some e, gm))"
    by (simp add: app_add_edge_def)
  then show ?thesis
    by (simp add: matrix_add_edge weight_nx_add_edge_fwd weight_nx_add_edge_bwd
        weight_nx_add_edge_other keys_nx_add_edge)
qed

theorem add_edge_effect_witness:
  "weight (adjacency_matrix (add_edge ''A'' ''A'' (- 1) new_graph_model)) ''A'' ''A'' = Some (- 1)
   \<and> weight (adjacency_matrix (add_edge ''A'' ''A'' (- 1) new_graph_model)) ''B'' ''C'' =
       weight (adjacency_matrix new_graph_model) ''B'' ''C''
   \<and> (\<exists>e. app_add_edge ''A'' ''A'' (Some (- 1)) new_graph_model = (Some e, new_graph_model))"
  using add_edge_effect [of "''A''" "''A''" "- 1" new_graph_model "''B''" "''C''"]
  by simp

text \<open>
  C4 as stated fails: on a fresh model \<open>add_edge('A', 'A', 5)\<close> and
  \<open>add_edge('A', 'B', -1)\<close> both go through and change the graph.
\<close>

theorem add_edge_no_check_counterexample:
  "adjacency_matrix (add_edge ''A'' ''A'' 5 new_graph_model) = [(''A'', [(''A'', 5)])]
   \<and> add_edge ''A'' ''A'' 5 new_graph_model \<noteq> new_graph_model
   \<and> adjacency_matrix (add_edge ''A'' ''B'' (- 1) new_graph_model) =
       [(''A'', [(''B'', - 1)]), (''B'', [(''A'', - 1)])]
   \<and> add_edge ''A'' ''B'' (- 1) new_graph_model \<noteq> new_graph_model"
  by (simp add: new_graph_model_def add_edge_def ensure_key_def set_entry_def keys_def)

section \<open>Claims about the solver's effects and refusals\<close>

text \<open>
  C9.  A call of \<open>calculate_tsp_route\<close>, whether it returns a route, returns the
  refusal or raises, leaves the graph model exactly as it found it; so does the
  \<open>get_graph\<close> call inside it.
\<close>

theorem solve_leaves_graph:
  "snd (calculate_tsp_route gm start_city) = gm \<and> snd (get_graph gm) = gm"
  by (simp add: calculate_tsp_route_def get_graph_def Let_def split: sum.splits prod.splits)

text \<open>
  C6, as the code has it.  After \<open>reset()\<close> the matrix and the node list are empty,
  and every solve call returns, without raising, the pair \<open>(None, message)\<close> whose
  message says that the start city is absent from the graph.
\<close>

theorem reset_then_solve:
  "adjacency_matrix (reset gm) = []
   \<and> nx_nodes (graph_of (reset gm)) = []
   \<and> calculate_tsp_route (reset gm) start_city = (Inr (Refused StartCityMissing), reset gm)"
  by (simp add: reset_def graph_of_def get_graph_def calculate_tsp_route_def nx_nodes_def keys_def)

text \<open>
  C6 as stated fails: there is no error of its own for the empty graph.  The call on a
  graph that was reset returns the very refusal that a non-empty graph without the start
  city returns.
\<close>

theorem empty_graph_error_counterexample:
  "solve (reset (run [AddEdge ''A'' ''B'' 3])) ''A'' = Inr (Refused StartCityMissing)
   \<and> solve (run [AddEdge ''B'' ''C'' 3]) ''A'' = Inr (Refused StartCityMissing)"
  by (simp add: solve_def calculate_tsp_route_def get_graph_def run_def new_graph_model_def
      reset_def add_edge_def nx_add_edge_def ensure_key_def set_entry_def keys_def nx_nodes_def)

section \<open>Facts about the solver\<close>

subsection \<open>permutations\<close>

lemma mset_remove_nth:
  "i < length xs \<Longrightarrow> add_mset (xs ! i) (mset (take i xs @ drop (Suc i) xs)) = mset xs"
proof -
  assume "i < length xs"
  then have "xs = take i xs @ xs ! i # drop (Suc i) xs"
    by (rule id_take_nth_drop)
  then have "mset xs = mset (take i xs @ xs ! i # drop (Suc i) xs)"
    by simp
  then show ?thesis by simp
qed

lemma permutations_sound: "ys \<in> set (permutations xs) \<Longrightarrow> mset ys = mset xs"
proof (induction xs arbitrary: ys rule: permutations.induct)
  case (1 xs)
  show ?case
  proof (cases "xs = []")
    case True
    with "1.prems" show ?thesis by (simp add: permutations.simps)
  next
    case False
    with "1.prems" obtain i p where i: "i < length xs"
      and p: "p \<in> set (permutations (take i xs @ drop (Suc i) xs))"
      and ys: "ys = xs ! i # p"
      by (subst (asm) permutations.simps) auto
    from "1.IH" [OF False _ p] i have "mset p = mset (take i xs @ drop (Suc i) xs)"
      by simp
    with ys mset_remove_nth [OF i] show ?thesis by simp
  qed
qed

lemma permutations_complete: "mset ys = mset xs \<Longrightarrow> ys \<in> set (permutations xs)"
proof (induction xs arbitrary: ys rule: permutations.induct)
  case (1 xs)
  show ?case
  proof (cases "xs = []")
    case True
    with "1.prems" show ?thesis by (simp add: permutations.simps)
  next
    case False
    with "1.prems" obtain y p where ys: "ys = y # p"
      by (cases ys) auto
    with "1.prems" have "y \<in> set xs"
      by (metis list.set_intros(1) mset_eq_setD)
    then obtain i where i: "i < length xs" and y: "xs ! i = y"
      by (auto simp: in_set_conv_nth)
    have "add_mset y (mset p) = add_mset y (mset (take i xs @ drop (Suc i) xs))"
      using "1.prems" ys mset_remove_nth [OF i] y by simp
    then have "mset p = mset (take i xs @ drop (Suc i) xs)"
      by simp
    from "1.IH" [OF False _ this] i
    have "p \<in> set (permutations (take i xs @ drop (Suc i) xs))" by simp
    with i y ys False show ?thesis
      by (subst permutations.simps) auto
  qed
qed

lemma set_permutations: "set (permutations xs) = {ys. mset ys = mset xs}"
  using permutations_sound permutations_complete by blast

lemma permutations_nonempty: "permutations xs \<noteq> []"
  using permutations_complete [of xs xs] by auto

subsection \<open>tour distance\<close>

lemma sum_weights_append:
  "sum_weights G (es @ fs) =
     (case sum_weights G es of None \<Rightarrow> None
      | Some a \<Rightarrow> (case sum_weights G fs of None \<Rightarrow> None | Some b \<Rightarrow> Some (a + b)))"
  by (induction G es rule: sum_weights.induct) (auto split: option.splits)

lemma path_distance_sum:
  "path_distance G d (u # rest) =
     (case sum_weights G (zip (u # rest) rest) of None \<Rightarrow> Inl KeyError | Some s \<Rightarrow> Inr (d + s))"
proof (induction rest arbitrary: u d)
  case Nil
  then show ?case by simp
next
  case (Cons v rest)
  show ?case
    by (simp add: Cons.IH split: option.splits)
qed

lemma zip_snoc:
  "length xs = Suc (length ys) \<Longrightarrow> zip xs (ys @ [z]) = zip xs ys @ [(last xs, z)]"
proof (induction ys arbitrary: xs)
  case Nil
  then show ?case by (cases xs) auto
next
  case (Cons y ys)
  then obtain x xs' where xs: "xs = x # xs'" and len: "length xs' = Suc (length ys)"
    by (cases xs) auto
  from len have "xs' \<noteq> []" by auto
  with Cons.IH [OF len] xs show ?case by simp
qed

lemma zip_closing: "zip (u # rest) (rest @ [u]) = zip (u # rest) rest @ [(last (u # rest), u)]"
  by (rule zip_snoc) simp

lemma cycle_edges_Cons:
  "cycle_edges (u # rest) = zip (u # rest) rest @ [(last (u # rest), u)]"
  unfolding cycle_edges_def using zip_closing [of u rest] by simp

lemma tour_distance_cycle_cost:
  "tour_distance G (u # rest) =
     (case cycle_cost G (u # rest) of None \<Rightarrow> Inl KeyError | Some c \<Rightarrow> Inr c)"
  by (simp add: cycle_cost_def cycle_edges_Cons sum_weights_append path_distance_sum
      del: zip_Cons_Cons split: option.splits)

subsection \<open>The search loop\<close>

text \<open>Whatever the loop returns is the state it started from or a candidate it measured.\<close>

lemma search_result:
  "search G s ps st = Inr (md, br) \<Longrightarrow>
   (md, br) = st \<or>
   (\<exists>p d. p \<in> set ps \<and> md = Fin d \<and> br = Some (s # p) \<and> tour_distance G (s # p) = Inr d)"
proof (induction ps arbitrary: st)
  case Nil
  then show ?case by simp
next
  case (Cons p ps)
  obtain m0 b0 where st: "st = (m0, b0)" by (cases st)
  from Cons.prems st obtain d where d: "tour_distance G (s # p) = Inr d"
    by (auto split: sum.splits)
  show ?case
  proof (cases "dist_less d m0")
    case True
    with Cons.prems st d have "search G s ps (Fin d, Some (s # p)) = Inr (md, br)"
      by simp
    from Cons.IH [OF this] d show ?thesis by auto
  next
    case False
    with Cons.prems st d have "search G s ps (m0, b0) = Inr (md, br)"
      by simp
    from Cons.IH [OF this] st show ?thesis by auto
  qed
qed

text \<open>The returned minimum is below the starting value and below every candidate.\<close>

lemma search_lower:
  "search G s ps st = Inr (md, br) \<Longrightarrow>
   (\<forall>d. \<not> dist_less d (fst st) \<longrightarrow> \<not> dist_less d md) \<and>
   (\<forall>p d. p \<in> set ps \<longrightarrow> tour_distance G (s # p) = Inr d \<longrightarrow> \<not> dist_less d md)"
proof (induction ps arbitrary: st)
  case Nil
  then show ?case by auto
next
  case (Cons p ps)
  obtain m0 b0 where st: "st = (m0, b0)" by (cases st)
  from Cons.prems st obtain d where d: "tour_distance G (s # p) = Inr d"
    by (auto split: sum.splits)
  show ?case
  proof (cases "dist_less d m0")
    case True
    with Cons.prems st d have "search G s ps (Fin d, Some (s # p)) = Inr (md, br)"
      by simp
    from Cons.IH [OF this]
    have a: "\<forall>e. \<not> dist_less e (Fin d) \<longrightarrow> \<not> dist_less e md"
      and b: "\<forall>q e. q \<in> set ps \<longrightarrow> tour_distance G (s # q) = Inr e \<longrightarrow> \<not> dist_less e md"
      by simp_all
    have "\<not> dist_less e md" if "\<not> dist_less e m0" for e
    proof -
      from that True have "\<not> dist_less e (Fin d)"
        by (cases m0) auto
      with a show ?thesis by blast
    qed
    moreover have "\<not> dist_less d md"
      using a by simp
    ultimately show ?thesis
      using b d st by auto
  next
    case False
    with Cons.prems st d have "search G s ps (m0, b0) = Inr (md, br)"
      by simp
    from Cons.IH [OF this]
    have a: "\<forall>e. \<not> dist_less e m0 \<longrightarrow> \<not> dist_less e md"
      and b: "\<forall>q e. q \<in> set ps \<longrightarrow> tour_distance G (s # q) = Inr e \<longrightarrow> \<not> dist_less e md"
      by simp_all
    from a False have "\<not> dist_less d md" by blast
    with a b d st show ?thesis by auto
  qed
qed

text \<open>The loop raises exactly when some candidate's distance raises.\<close>

lemma search_defined:
  "(\<exists>r. search G s ps st = Inr r) \<longleftrightarrow> (\<forall>p \<in> set ps. \<exists>d. tour_distance G (s # p) = Inr d)"
proof (induction ps arbitrary: st)
  case Nil
  then show ?case by simp
next
  case (Cons p ps)
  obtain m0 b0 where st: "st = (m0, b0)" by (cases st)
  show ?case
  proof (cases "tour_distance G (s # p)")
    case (Inl e)
    then show ?thesis by (auto simp: st)
  next
    case (Inr d)
    then show ?thesis
      using Cons.IH [of "(Fin d, Some (s # p))"] Cons.IH [of "(m0, b0)"]
      by (simp add: st)
  qed
qed

lemma tour_distance_error:
  assumes "tour_distance G (u # rest) = Inl e"
  shows "e = KeyError"
proof -
  from assms
  have "(case cycle_cost G (u # rest) of None \<Rightarrow> Inl KeyError | Some c \<Rightarrow> Inr c) = Inl e"
    by (simp only: tour_distance_cycle_cost)
  then show ?thesis by (auto split: option.splits)
qed

lemma search_error: "search G s ps st = Inl e \<Longrightarrow> e = KeyError"
proof (induction ps arbitrary: st)
  case Nil
  then show ?case by simp
next
  case (Cons p ps)
  obtain m0 b0 where st: "st = (m0, b0)" by (cases st)
  show ?case
  proof (cases "tour_distance G (s # p)")
    case (Inl e')
    with Cons.prems st tour_distance_error [OF Inl] show ?thesis by simp
  next
    case (Inr d)
    with Cons.prems st show ?thesis
      by (auto split: if_splits dest: Cons.IH)
  qed
qed

text \<open>From the initial state and a non-empty candidate list, a route is always chosen.\<close>

lemma search_initial:
  assumes "search G s ps (Infty, None) = Inr (md, br)" and "ps \<noteq> []"
  shows "\<exists>p d. p \<in> set ps \<and> md = Fin d \<and> br = Some (s # p) \<and> tour_distance G (s # p) = Inr d"
proof -
  from assms(2) obtain q qs where ps: "ps = q # qs" by (cases ps) auto
  with assms(1) obtain d where d: "tour_distance G (s # q) = Inr d"
    by (auto split: sum.splits)
  with assms(1) ps have "search G s qs (Fin d, Some (s # q)) = Inr (md, br)"
    by simp
  from search_result [OF this] d ps show ?thesis by auto
qed

subsection \<open>The cost of a cycle does not depend on where it is entered\<close>

lemma sum_weights_char:
  "sum_weights G es =
     (if \<forall>e \<in> set es. weight G (fst e) (snd e) \<noteq> None
      then Some (sum_list (map (\<lambda>e. the (weight G (fst e) (snd e))) es))
      else None)"
  by (induction G es rule: sum_weights.induct) (auto split: option.splits)

lemma sum_weights_mset:
  assumes "mset es = mset fs"
  shows "sum_weights G es = sum_weights G fs"
proof -
  let ?f = "\<lambda>e. the (weight G (fst e) (snd e))"
  from assms have s: "set es = set fs" by (rule mset_eq_setD)
  have "sum_list (map ?f es) = sum_mset (mset (map ?f es))"
    by (simp only: sum_mset_sum_list)
  also have "\<dots> = sum_mset (image_mset ?f (mset es))"
    by (simp only: mset_map)
  also have "\<dots> = sum_mset (image_mset ?f (mset fs))"
    by (simp only: assms)
  also have "\<dots> = sum_mset (mset (map ?f fs))"
    by (simp only: mset_map)
  also have "\<dots> = sum_list (map ?f fs)"
    by (simp only: sum_mset_sum_list)
  finally show ?thesis
    by (simp only: sum_weights_char s)
qed

lemma zip_rotate1:
  "length xs = length ys \<Longrightarrow> zip (rotate1 xs) (rotate1 ys) = rotate1 (zip xs ys)"
  by (cases xs; cases ys) auto

lemma cycle_edges_rotate1: "cycle_edges (rotate1 r) = rotate1 (cycle_edges r)"
  unfolding cycle_edges_def by (rule zip_rotate1) simp

lemma mset_rotate1: "mset (rotate1 xs) = mset xs"
  by (cases xs) simp_all

lemma cycle_cost_rotate1: "cycle_cost G (rotate1 r) = cycle_cost G r"
  unfolding cycle_cost_def cycle_edges_rotate1 by (rule sum_weights_mset) (rule mset_rotate1)

lemma cycle_cost_rotate: "cycle_cost G (rotate n r) = cycle_cost G r"
  by (induction n) (simp_all add: cycle_cost_rotate1)

text \<open>A cycle through a node can be rotated so that it starts there.\<close>

lemma rotate_to_front:
  assumes "s \<in> set r"
  shows "\<exists>n rest. rotate n r = s # rest"
proof -
  from assms obtain i where i: "i < length r" and s: "r ! i = s"
    by (auto simp: in_set_conv_nth)
  have "rotate i r = drop i r @ take i r"
    using i by (simp add: rotate_drop_take)
  also have "drop i r = s # drop (Suc i) r"
    using Cons_nth_drop_Suc [OF i] s by simp
  finally show ?thesis by auto
qed

lemma hamiltonian_rotated:
  assumes ham: "hamiltonian_cycle G r" and s: "s \<in> set (nx_nodes G)"
    and dist: "distinct (nx_nodes G)"
  shows "\<exists>p. p \<in> set (permutations (filter (\<lambda>node. node \<noteq> s) (nx_nodes G))) \<and>
             cycle_cost G (s # p) = cycle_cost G r"
proof -
  from ham have dr: "distinct r" and sr: "set r = set (nx_nodes G)"
    by (simp_all add: hamiltonian_cycle_def)
  from s sr obtain n p where rot: "rotate n r = s # p"
    using rotate_to_front [of s r] by auto
  have "distinct (rotate n r)" using dr by simp
  then have "distinct (s # p)" by (simp only: rot)
  moreover have "set (rotate n r) = set (nx_nodes G)" using sr by simp
  then have "set (s # p) = set (nx_nodes G)" by (simp only: rot)
  ultimately have dp: "distinct p"
    and sp: "set p = set (filter (\<lambda>node. node \<noteq> s) (nx_nodes G))"
    by auto
  from dist have df: "distinct (filter (\<lambda>node. node \<noteq> s) (nx_nodes G))"
    by (rule distinct_filter)
  from sp have "mset p = mset (filter (\<lambda>node. node \<noteq> s) (nx_nodes G))"
    by (rule set_eq_iff_mset_eq_distinct [OF dp df, THEN iffD1])
  then have "p \<in> set (permutations (filter (\<lambda>node. node \<noteq> s) (nx_nodes G)))"
    by (rule permutations_complete)
  moreover have "cycle_cost G (s # p) = cycle_cost G r"
    using cycle_cost_rotate [of G n r] rot by simp
  ultimately show ?thesis by blast
qed

lemma candidate_hamiltonian:
  assumes "p \<in> set (permutations (filter (\<lambda>node. node \<noteq> s) (nx_nodes G)))"
    and "s \<in> set (nx_nodes G)" and "distinct (nx_nodes G)"
  shows "hamiltonian_cycle G (s # p)"
proof -
  from assms(1) have m: "mset p = mset (filter (\<lambda>node. node \<noteq> s) (nx_nodes G))"
    by (rule permutations_sound)
  then have "set p = set (filter (\<lambda>node. node \<noteq> s) (nx_nodes G))"
    by (rule mset_eq_setD)
  moreover have "distinct (filter (\<lambda>node. node \<noteq> s) (nx_nodes G))"
    using assms(3) by (rule distinct_filter)
  then have "distinct p"
    using mset_eq_imp_distinct_iff [OF m] by simp
  ultimately show ?thesis
    using assms(2) by (auto simp: hamiltonian_cycle_def)
qed

subsection \<open>The graph that \<open>get_graph\<close> builds\<close>

text \<open>Every property that each \<open>Graph.add_edge\<close> keeps holds of the graph built.\<close>

lemma graph_of_induct:
  assumes base: "P []" and step: "\<And>u v w G. P G \<Longrightarrow> P (nx_add_edge u v w G)"
  shows "P (graph_of gm)"
proof -
  have inner: "P (fold (\<lambda>(city2, distance) G'. nx_add_edge city1 city2 distance G') nb G)"
    if "P G" for city1 nb G
    using that by (induction nb arbitrary: G) (auto intro: step)
  have outer: "P (fold (\<lambda>(city1, neighbors) G.
              fold (\<lambda>(city2, distance) G'. nx_add_edge city1 city2 distance G') neighbors G) m G)"
    if "P G" for m G
    using that by (induction m arbitrary: G) (auto intro: inner)
  show ?thesis
    unfolding graph_of_def get_graph_def by (simp add: outer base)
qed

lemma keys_dict_set_list:
  "keys (dict_set k v d) = (if k \<in> set (keys d) then keys d else keys d @ [k])"
  by (simp add: dict_set_update keys_def update_keys)

lemma keys_ensure_key_list:
  "keys (ensure_key c m) = (if c \<in> set (keys m) then keys m else keys m @ [c])"
  by (simp add: ensure_key_def keys_dict_set_list)

lemma keys_set_entry_list: "keys (set_entry a b w m) = keys m"
proof (cases "map_of m a")
  case None
  then show ?thesis by (simp add: set_entry_def)
next
  case (Some row)
  then have "a \<in> set (keys m)" by (rule map_of_Some_keys)
  with Some show ?thesis
    by (simp add: set_entry_def keys_dict_set_list)
qed

lemma distinct_keys_ensure_key: "distinct (keys m) \<Longrightarrow> distinct (keys (ensure_key c m))"
  by (simp add: keys_ensure_key_list)

lemma distinct_keys_nx_add_edge: "distinct (keys G) \<Longrightarrow> distinct (keys (nx_add_edge u v w G))"
  unfolding nx_add_edge_def keys_set_entry_list
  by (intro distinct_keys_ensure_key)

lemma distinct_nodes: "distinct (nx_nodes (graph_of gm))"
  unfolding nx_nodes_def
  by (rule graph_of_induct) (simp_all add: keys_def distinct_keys_nx_add_edge [unfolded keys_def])

lemma weight_Some_key: "weight G u v = Some w \<Longrightarrow> u \<in> set (keys G)"
  by (auto simp: weight_def split: option.splits dest: map_of_Some_keys)

text \<open>Every node of the graph built has an edge, and edges lead to nodes.\<close>

lemma nx_add_edge_has_edge:
  assumes inv: "\<forall>x \<in> set (keys G). \<exists>y c. weight G x y = Some c"
    and x: "x \<in> set (keys (nx_add_edge u v w G))"
  shows "\<exists>y c. weight (nx_add_edge u v w G) x y = Some c"
proof -
  consider "x = u" | "x = v" | "x \<noteq> u" "x \<noteq> v" by blast
  then show ?thesis
  proof cases
    case 1
    then show ?thesis using weight_nx_add_edge_fwd [of u v w G] by blast
  next
    case 2
    then show ?thesis using weight_nx_add_edge_bwd [of u v w G] by blast
  next
    case 3
    with x have "x \<in> set (keys G)" by (simp add: keys_nx_add_edge)
    with inv obtain y c where "weight G x y = Some c" by blast
    moreover have "weight (nx_add_edge u v w G) x y = weight G x y"
      using 3 by (intro weight_nx_add_edge_other) simp_all
    ultimately show ?thesis by auto
  qed
qed

lemma nx_add_edge_target:
  assumes inv: "\<forall>x y c. weight G x y = Some c \<longrightarrow> y \<in> set (keys G)"
    and e: "weight (nx_add_edge u v w G) x y = Some c"
  shows "y \<in> set (keys (nx_add_edge u v w G))"
proof (cases "(x = u \<and> y = v) \<or> (x = v \<and> y = u)")
  case True
  then show ?thesis by (auto simp: keys_nx_add_edge)
next
  case False
  then have "x \<noteq> u \<or> y \<noteq> v" and "x \<noteq> v \<or> y \<noteq> u" by blast+
  then have "weight (nx_add_edge u v w G) x y = weight G x y"
    by (rule weight_nx_add_edge_other)
  with e inv have "y \<in> set (keys G)" by auto
  then show ?thesis by (simp add: keys_nx_add_edge)
qed

lemma graph_of_has_edge:
  "\<forall>x \<in> set (keys (graph_of gm)). \<exists>y c. weight (graph_of gm) x y = Some c"
proof (rule graph_of_induct)
  show "\<forall>x \<in> set (keys ([] :: nx_graph)). \<exists>y c. weight [] x y = Some c"
    by (simp add: keys_def)
next
  fix u v w G
  assume "\<forall>x \<in> set (keys G). \<exists>y c. weight G x y = Some c"
  then show "\<forall>x \<in> set (keys (nx_add_edge u v w G)). \<exists>y c. weight (nx_add_edge u v w G) x y = Some c"
    using nx_add_edge_has_edge by blast
qed

lemma graph_of_target:
  "\<forall>x y c. weight (graph_of gm) x y = Some c \<longrightarrow> y \<in> set (keys (graph_of gm))"
proof (rule graph_of_induct)
  show "\<forall>x y c. weight [] x y = Some c \<longrightarrow> y \<in> set (keys ([] :: nx_graph))"
    by (simp add: weight_empty)
next
  fix u v w G
  assume "\<forall>x y c. weight G x y = Some c \<longrightarrow> y \<in> set (keys G)"
  then show "\<forall>x y c. weight (nx_add_edge u v w G) x y = Some c \<longrightarrow> y \<in> set (keys (nx_add_edge u v w G))"
    using nx_add_edge_target by blast
qed

lemma graph_of_symmetric: "weight (graph_of gm) x y = weight (graph_of gm) y x"
proof -
  have "\<forall>x y. weight (graph_of gm) x y = weight (graph_of gm) y x"
  proof (rule graph_of_induct)
    show "\<forall>x y. weight [] x y = weight [] y x" by (simp add: weight_empty)
  next
    fix u v w G
    assume "\<forall>x y. weight G x y = weight G y x"
    then show "\<forall>x y. weight (nx_add_edge u v w G) x y = weight (nx_add_edge u v w G) y x"
      using nx_add_edge_symmetric [of G u v w] by blast
  qed
  then show ?thesis by blast
qed

lemma single_node_self_loop:
  assumes "nx_nodes (graph_of gm) = [a]"
  shows "\<exists>w. weight (graph_of gm) a a = Some w"
proof -
  from assms have k: "set (keys (graph_of gm)) = {a}" by (simp add: nx_nodes_def)
  with graph_of_has_edge [of gm] obtain y c where e: "weight (graph_of gm) a y = Some c"
    by auto
  with graph_of_target [of gm] k have "y = a" by blast
  with e show ?thesis by blast
qed

subsection \<open>The solver, unfolded\<close>

lemma solve_unfold:
  "solve gm s =
     (if s \<notin> set (nx_nodes (graph_of gm)) then Inr (Refused StartCityMissing)
      else (case search (graph_of gm) s
                   (permutations (filter (\<lambda>node. node \<noteq> s) (nx_nodes (graph_of gm))))
                   (Infty, None) of
              Inl e \<Rightarrow> Inl e
            | Inr (md, br) \<Rightarrow> Inr (Best br md)))"
  by (simp add: solve_def calculate_tsp_route_def graph_of_def get_graph_def Let_def
      split: sum.splits prod.splits)

lemma hamiltonian_length:
  assumes "hamiltonian_cycle G r" and "distinct (nx_nodes G)"
  shows "length r = length (nx_nodes G)"
proof -
  from assms have dr: "distinct r" and sr: "set r = set (nx_nodes G)"
    by (simp_all add: hamiltonian_cycle_def)
  have "length r = card (set r)"
    using dr by (simp add: distinct_card)
  also have "\<dots> = card (set (nx_nodes G))"
    by (simp only: sr)
  also have "\<dots> = length (nx_nodes G)"
    using assms(2) by (simp add: distinct_card)
  finally show ?thesis .
qed

text \<open>In a complete graph with two or more nodes every Hamiltonian cycle has a cost.\<close>

lemma complete_cycle_cost:
  assumes comp: "complete G" and ham: "hamiltonian_cycle G r" and two: "2 \<le> length r"
  shows "\<exists>c. cycle_cost G r = Some c"
proof -
  from ham have dr: "distinct r" and sr: "set r = set (nx_nodes G)"
    by (simp_all add: hamiltonian_cycle_def)
  have "weight G (fst e) (snd e) \<noteq> None" if e: "e \<in> set (cycle_edges r)" for e
  proof -
    from e obtain i where i: "i < length r" and ei: "e = (r ! i, rotate1 r ! i)"
      unfolding cycle_edges_def by (auto simp: in_set_zip)
    have nxt: "rotate1 r ! i = r ! (Suc i mod length r)"
      using i by (simp add: nth_rotate1)
    from i have "0 < length r" by linarith
    then have j: "Suc i mod length r < length r" by (rule mod_less_divisor)
    have "Suc i mod length r \<noteq> i"
    proof (cases "Suc i = length r")
      case True
      with two show ?thesis by simp
    next
      case False
      with i have "Suc i mod length r = Suc i" by simp
      then show ?thesis by simp
    qed
    with dr i j have ne: "r ! i \<noteq> r ! (Suc i mod length r)"
      by (simp add: nth_eq_iff_index_eq)
    have "r ! i \<in> set (nx_nodes G)" "r ! (Suc i mod length r) \<in> set (nx_nodes G)"
      using i j sr nth_mem by blast+
    with comp ne have "weight G (r ! i) (r ! (Suc i mod length r)) \<noteq> None"
      unfolding complete_def by blast
    with ei nxt show ?thesis by simp
  qed
  then show ?thesis
    unfolding cycle_cost_def by (simp add: sum_weights_char)
qed

lemma tour_distance_Some:
  "cycle_cost G (u # rest) = Some c \<Longrightarrow> tour_distance G (u # rest) = Inr c"
  by (simp only: tour_distance_cycle_cost option.case)

lemma tour_distance_Inr:
  assumes "tour_distance G (u # rest) = Inr c"
  shows "cycle_cost G (u # rest) = Some c"
proof -
  from assms
  have "(case cycle_cost G (u # rest) of None \<Rightarrow> Inl KeyError | Some c \<Rightarrow> Inr c) = Inr c"
    by (simp only: tour_distance_cycle_cost)
  then show ?thesis by (auto split: option.splits)
qed

section \<open>Claims about the route returned\<close>

text \<open>
  C1.  For every graph (the one \<open>get_graph\<close> hands to the solver) that is complete
  over its node set, has at least two nodes and contains the start node, the call returns
  a route together with a cost such that: the route is a Hamiltonian cycle, the cost is
  the sum of the consecutive edge weights of that cycle including the closing edge back
  to the start, and the cost is less than or equal to the cost of every Hamiltonian
  cycle of the graph, wherever that cycle is entered and whichever way it is walked.
\<close>

theorem solve_optimal:
  assumes comp: "complete (graph_of gm)"
    and two: "2 \<le> length (nx_nodes (graph_of gm))"
    and st: "start \<in> set (nx_nodes (graph_of gm))"
  shows "\<exists>route cost.
           solve gm start = Inr (Best (Some route) (Fin cost)) \<and>
           hamiltonian_cycle (graph_of gm) route \<and>
           cycle_cost (graph_of gm) route = Some cost \<and>
           (\<forall>r. hamiltonian_cycle (graph_of gm) r \<longrightarrow>
                (\<exists>c. cycle_cost (graph_of gm) r = Some c \<and> cost \<le> c))"
proof -
  let ?G = "graph_of gm"
  let ?ps = "permutations (filter (\<lambda>node. node \<noteq> start) (nx_nodes ?G))"
  have dn: "distinct (nx_nodes ?G)" by (rule distinct_nodes)
  have cost_ex: "\<exists>c. cycle_cost ?G r = Some c" if "hamiltonian_cycle ?G r" for r
  proof -
    from that dn have "length r = length (nx_nodes ?G)" by (rule hamiltonian_length)
    with two have "2 \<le> length r" by simp
    with comp that show ?thesis by (rule complete_cycle_cost)
  qed
  have cand: "hamiltonian_cycle ?G (start # p)" if "p \<in> set ?ps" for p
    using that st dn by (rule candidate_hamiltonian)
  have "\<forall>p \<in> set ?ps. \<exists>d. tour_distance ?G (start # p) = Inr d"
    using cand cost_ex tour_distance_Some by blast
  then obtain res where "search ?G start ?ps (Infty, None) = Inr res"
    using search_defined [of ?G start ?ps "(Infty, None)"] by blast
  then obtain md br where res: "search ?G start ?ps (Infty, None) = Inr (md, br)"
    by (cases res) auto
  from search_initial [OF res permutations_nonempty]
  obtain p d where p: "p \<in> set ?ps" and md: "md = Fin d" and br: "br = Some (start # p)"
    and td: "tour_distance ?G (start # p) = Inr d"
    by blast
  have sol: "solve gm start = Inr (Best (Some (start # p)) (Fin d))"
    using st res md br by (simp add: solve_unfold)
  have low: "d \<le> c" if ham: "hamiltonian_cycle ?G r" and c: "cycle_cost ?G r = Some c" for r c
  proof -
    from hamiltonian_rotated [OF ham st dn]
    obtain q where q: "q \<in> set ?ps" and "cycle_cost ?G (start # q) = cycle_cost ?G r"
      by blast
    with c have "cycle_cost ?G (start # q) = Some c"
      by simp
    then have "tour_distance ?G (start # q) = Inr c"
      by (rule tour_distance_Some)
    with search_lower [OF res] q have "\<not> dist_less c md" by blast
    with md show ?thesis by simp
  qed
  have "\<forall>r. hamiltonian_cycle ?G r \<longrightarrow> (\<exists>c. cycle_cost ?G r = Some c \<and> d \<le> c)"
    using cost_ex low by blast
  with sol cand [OF p] tour_distance_Inr [OF td] show ?thesis by blast
qed

text \<open>
  C2, as the code has it.  A call that returns \<open>(best_route, min_distance)\<close> returns
  a route of exactly \<open>n\<close> entries, \<open>n\<close> the number of nodes: the start node
  first, followed by a permutation of the remaining \<open>n - 1\<close> nodes (no repeats, no
  omissions).  The start node is not appended at the end; the way back is only in the
  cost.
\<close>

theorem route_shape:
  assumes "solve gm start = Inr (Best br md)"
  shows "\<exists>route. br = Some route \<and>
           length route = length (nx_nodes (graph_of gm)) \<and>
           hd route = start \<and>
           mset (tl route) = mset (filter (\<lambda>node. node \<noteq> start) (nx_nodes (graph_of gm))) \<and>
           distinct route \<and> set route = set (nx_nodes (graph_of gm))"
proof -
  let ?G = "graph_of gm"
  let ?ps = "permutations (filter (\<lambda>node. node \<noteq> start) (nx_nodes ?G))"
  have dn: "distinct (nx_nodes ?G)" by (rule distinct_nodes)
  from assms have st: "start \<in> set (nx_nodes ?G)"
    by (auto simp: solve_unfold split: if_splits)
  with assms have res: "search ?G start ?ps (Infty, None) = Inr (md, br)"
    by (auto simp: solve_unfold split: sum.splits)
  from search_initial [OF res permutations_nonempty]
  obtain p where p: "p \<in> set ?ps" and br: "br = Some (start # p)"
    by blast
  from p st dn have ham: "hamiltonian_cycle ?G (start # p)"
    by (rule candidate_hamiltonian)
  from ham dn have "length (start # p) = length (nx_nodes ?G)"
    by (rule hamiltonian_length)
  moreover from p have "mset p = mset (filter (\<lambda>node. node \<noteq> start) (nx_nodes ?G))"
    by (rule permutations_sound)
  ultimately show ?thesis
    using br ham by (simp add: hamiltonian_cycle_def)
qed

theorem solve_optimal_witness:
  "complete (graph_of four_cities) \<and>
   2 \<le> length (nx_nodes (graph_of four_cities)) \<and>
   ''A'' \<in> set (nx_nodes (graph_of four_cities)) \<and>
   solve four_cities ''A'' = Inr (Best (Some [''A'', ''B'', ''C'', ''D'']) (Fin 10)) \<and>
   cycle_cost (graph_of four_cities) [''A'', ''B'', ''C'', ''D''] = Some 10 \<and>
   (\<exists>c. cycle_cost (graph_of four_cities) [''C'', ''A'', ''B'', ''D''] = Some c \<and> 10 \<le> c)"
proof -
  have h1: "complete (graph_of four_cities)" by code_simp
  have h2: "2 \<le> length (nx_nodes (graph_of four_cities))" by code_simp
  have h3: "''A'' \<in> set (nx_nodes (graph_of four_cities))" by code_simp
  have s: "solve four_cities ''A'' = Inr (Best (Some [''A'', ''B'', ''C'', ''D'']) (Fin 10))"
    by code_simp
  have r: "hamiltonian_cycle (graph_of four_cities) [''C'', ''A'', ''B'', ''D'']"
    by code_simp
  from solve_optimal [OF h1 h2 h3] obtain route cost
    where "solve four_cities ''A'' = Inr (Best (Some route) (Fin cost))"
      and "cycle_cost (graph_of four_cities) route = Some cost"
      and "\<forall>r. hamiltonian_cycle (graph_of four_cities) r \<longrightarrow>
             (\<exists>c. cycle_cost (graph_of four_cities) r = Some c \<and> cost \<le> c)"
    by blast
  with s r h1 h2 h3 show ?thesis by auto
qed

theorem route_shape_witness:
  "solve two_cities ''A'' = Inr (Best (Some [''A'', ''B'']) (Fin 10)) \<and>
   length [''A'', ''B''] = length (nx_nodes (graph_of two_cities)) \<and>
   mset (tl [''A'', ''B'']) =
     mset (filter (\<lambda>node. node \<noteq> ''A'') (nx_nodes (graph_of two_cities))) \<and>
   set [''A'', ''B''] = set (nx_nodes (graph_of two_cities))"
proof -
  have s: "solve two_cities ''A'' = Inr (Best (Some [''A'', ''B'']) (Fin 10))"
    by code_simp
  from route_shape [OF s] s show ?thesis by auto
qed

text \<open>
  C2 as stated fails: on the two-city graph the route has two entries, not three, and
  does not end in the start city.
\<close>

theorem closed_route_counterexample:
  "length (nx_nodes (graph_of two_cities)) = 2 \<and>
   solve two_cities ''A'' = Inr (Best (Some [''A'', ''B'']) (Fin 10)) \<and>
   length [''A'', ''B''] \<noteq> 2 + 1 \<and> last [''A'', ''B''] \<noteq> ''A''"
  by code_simp

text \<open>
  C3.  On the path \<open>A - B - C\<close> the candidate \<open>A, B, C\<close> needs the edge
  \<open>(C, A)\<close>; the lookup raises \<open>KeyError\<close>, which nothing in the solver or its
  caller catches.  The missing start city, by contrast, is reported through the returned
  pair.
\<close>

theorem missing_edge_raises:
  "nx_nodes (graph_of path_abc) = [''A'', ''B'', ''C''] \<and>
   weight (graph_of path_abc) ''A'' ''C'' = None \<and>
   solve path_abc ''A'' = Inl KeyError"
  by code_simp

text \<open>
  The behaviour is general: whenever some Hamiltonian
  cycle of the graph lacks an edge, the call raises \<open>KeyError\<close>; no candidate is
  skipped and no route is returned.
\<close>

lemma missing_edge_always_raises:
  assumes st: "start \<in> set (nx_nodes (graph_of gm))"
    and ham: "hamiltonian_cycle (graph_of gm) r"
    and none: "cycle_cost (graph_of gm) r = None"
  shows "solve gm start = Inl KeyError"
proof -
  let ?G = "graph_of gm"
  let ?ps = "permutations (filter (\<lambda>node. node \<noteq> start) (nx_nodes ?G))"
  from hamiltonian_rotated [OF ham st distinct_nodes] none
  obtain q where q: "q \<in> set ?ps" and c: "cycle_cost ?G (start # q) = None"
    by auto
  have td: "tour_distance ?G (start # q) = Inl KeyError"
    by (simp only: tour_distance_cycle_cost c option.case)
  have "\<not> (\<exists>d. tour_distance ?G (start # q) = Inr d)"
    by (simp only: td) simp
  with q have "\<not> (\<forall>p \<in> set ?ps. \<exists>d. tour_distance ?G (start # p) = Inr d)"
    by blast
  then have "\<not> (\<exists>res. search ?G start ?ps (Infty, None) = Inr res)"
    using search_defined [of ?G start ?ps "(Infty, None)"] by blast
  then obtain e where e: "search ?G start ?ps (Infty, None) = Inl e"
    by (cases "search ?G start ?ps (Infty, None)") auto
  from search_error [OF e] e st show ?thesis
    by (simp add: solve_unfold)
qed

section \<open>The graph built agrees with the matrix it is built from\<close>

lemma graph_of_items:
  "graph_of gm = fold (\<lambda>(u, v, w). nx_add_edge u v w) (items (adjacency_matrix gm)) []"
proof -
  have inner: "fold (\<lambda>(city2, distance) G'. nx_add_edge city1 city2 distance G') nb G =
      fold (\<lambda>(u, v, w). nx_add_edge u v w) (map (\<lambda>(city2, distance). (city1, city2, distance)) nb) G"
    for city1 nb and G :: nx_graph
    by (induction nb arbitrary: G) auto
  have outer: "fold (\<lambda>(city1, neighbors) G.
              fold (\<lambda>(city2, distance) G'. nx_add_edge city1 city2 distance G') neighbors G) m G =
      fold (\<lambda>(u, v, w). nx_add_edge u v w) (items m) G"
    for m and G :: nx_graph
    by (induction m arbitrary: G) (auto simp: items_def inner)
  show ?thesis
    by (simp add: graph_of_def get_graph_def outer)
qed

text \<open>Every property that \<open>add_edge\<close> keeps holds of every matrix reached.\<close>

lemma run_induct:
  assumes base: "P []" and step: "\<And>u v w m. P m \<Longrightarrow> P (nx_add_edge u v w m)"
  shows "P (adjacency_matrix (run ops))"
proof (induction ops rule: rev_induct)
  case Nil
  then show ?case by (simp add: run_def new_graph_model_def base)
next
  case (snoc x ops)
  then show ?case
    by (cases x) (simp_all add: run_snoc matrix_add_edge reset_def step base)
qed

lemma run_distinct_keys: "distinct (keys (adjacency_matrix (run ops)))"
  by (rule run_induct) (simp_all add: keys_def distinct_keys_nx_add_edge [unfolded keys_def])

lemma run_has_edge:
  "\<forall>x \<in> set (keys (adjacency_matrix (run ops))). \<exists>y c. weight (adjacency_matrix (run ops)) x y = Some c"
proof (rule run_induct)
  show "\<forall>x \<in> set (keys ([] :: adjacency)). \<exists>y c. weight [] x y = Some c"
    by (simp add: keys_def)
next
  fix u v w m
  assume "\<forall>x \<in> set (keys m). \<exists>y c. weight m x y = Some c"
  then show "\<forall>x \<in> set (keys (nx_add_edge u v w m)). \<exists>y c. weight (nx_add_edge u v w m) x y = Some c"
    using nx_add_edge_has_edge by blast
qed

subsection \<open>Rows have no repeated keys\<close>

lemma set_dict_set: "set (dict_set k v d) \<subseteq> insert (k, v) (set d)"
  by (induction d) auto

lemma rows_ensure_key:
  assumes "\<forall>(u, row) \<in> set m. distinct (keys row)"
  shows "\<forall>(u, row) \<in> set (ensure_key c m). distinct (keys row)"
proof -
  have "set (ensure_key c m) \<subseteq> insert (c, []) (set m)"
    using set_dict_set [of c "[]" m] by (auto simp: ensure_key_def)
  with assms show ?thesis by (auto simp: keys_def)
qed

lemma rows_set_entry:
  assumes "\<forall>(u, row) \<in> set m. distinct (keys row)"
  shows "\<forall>(u, row) \<in> set (set_entry a b w m). distinct (keys row)"
proof (cases "map_of m a")
  case None
  with assms show ?thesis by (simp add: set_entry_def)
next
  case (Some r)
  then have "(a, r) \<in> set m" by (rule map_of_SomeD)
  with assms have "distinct (keys r)" by auto
  then have d: "distinct (keys (dict_set b w r))" by (rule distinct_dict_set)
  have "set (set_entry a b w m) \<subseteq> insert (a, dict_set b w r) (set m)"
    using Some set_dict_set [of a "dict_set b w r" m] by (simp add: set_entry_def)
  with assms d show ?thesis by auto
qed

lemma rows_nx_add_edge:
  assumes "\<forall>(u, row) \<in> set m. distinct (keys row)"
  shows "\<forall>(u, row) \<in> set (nx_add_edge a b w m). distinct (keys row)"
  unfolding nx_add_edge_def
  by (intro rows_set_entry rows_ensure_key assms)

lemma run_rows: "\<forall>(u, row) \<in> set (adjacency_matrix (run ops)). distinct (keys row)"
  by (rule run_induct) (simp_all add: rows_nx_add_edge)

lemma items_iff:
  assumes dk: "distinct (keys m)" and rows: "\<forall>(u, row) \<in> set m. distinct (keys row)"
  shows "(u, v, w) \<in> set (items m) \<longleftrightarrow> weight m u v = Some w"
proof
  assume "(u, v, w) \<in> set (items m)"
  then obtain row where r: "(u, row) \<in> set m" and e: "(v, w) \<in> set row"
    by (auto simp: items_def)
  from dk r have "map_of m u = Some row" by (simp add: keys_def)
  moreover from rows r have "distinct (keys row)" by auto
  with e have "map_of row v = Some w" by (simp add: keys_def)
  ultimately show "weight m u v = Some w" by (simp add: weight_def)
next
  assume "weight m u v = Some w"
  then obtain row where r: "map_of m u = Some row" and e: "map_of row v = Some w"
    by (auto simp: weight_def split: option.splits)
  from r have "(u, row) \<in> set m" by (rule map_of_SomeD)
  moreover from e have "(v, w) \<in> set row" by (rule map_of_SomeD)
  ultimately show "(u, v, w) \<in> set (items m)"
    by (force simp: items_def)
qed

subsection \<open>Replaying the entries of a symmetric matrix\<close>

lemma nx_add_edge_keeps:
  assumes "weight G x y \<noteq> None"
  shows "weight (nx_add_edge u v w G) x y \<noteq> None"
proof (cases "(x = u \<and> y = v) \<or> (x = v \<and> y = u)")
  case True
  then show ?thesis
    using weight_nx_add_edge_fwd [of u v w G] weight_nx_add_edge_bwd [of u v w G] by auto
next
  case False
  then have "x \<noteq> u \<or> y \<noteq> v" and "x \<noteq> v \<or> y \<noteq> u" by blast+
  then have "weight (nx_add_edge u v w G) x y = weight G x y"
    by (rule weight_nx_add_edge_other)
  with assms show ?thesis by simp
qed

lemma nx_add_edge_agrees:
  assumes G: "\<forall>x y c. weight G x y = Some c \<longrightarrow> W x y = Some c"
    and uv: "W u v = Some w" and vu: "W v u = Some w"
    and e: "weight (nx_add_edge u v w G) x y = Some c"
  shows "W x y = Some c"
proof (cases "(x = u \<and> y = v) \<or> (x = v \<and> y = u)")
  case True
  then show ?thesis
    using e uv vu weight_nx_add_edge_fwd [of u v w G] weight_nx_add_edge_bwd [of u v w G] by auto
next
  case False
  then have "x \<noteq> u \<or> y \<noteq> v" and "x \<noteq> v \<or> y \<noteq> u" by blast+
  then have "weight (nx_add_edge u v w G) x y = weight G x y"
    by (rule weight_nx_add_edge_other)
  with e G show ?thesis by simp
qed

lemma replay_keeps:
  "weight G x y \<noteq> None \<Longrightarrow> weight (fold (\<lambda>(u, v, w). nx_add_edge u v w) es G) x y \<noteq> None"
proof (induction es arbitrary: G)
  case Nil
  then show ?case by simp
next
  case (Cons e es)
  obtain u v w where e: "e = (u, v, w)" by (cases e)
  from Cons.prems have "weight (nx_add_edge u v w G) x y \<noteq> None"
    by (rule nx_add_edge_keeps)
  then have "weight (fold (\<lambda>(u, v, w). nx_add_edge u v w) es (nx_add_edge u v w G)) x y \<noteq> None"
    by (rule Cons.IH)
  then show ?case by (simp add: e)
qed

lemma replay_covers:
  "(u, v, w) \<in> set es \<Longrightarrow> weight (fold (\<lambda>(u, v, w). nx_add_edge u v w) es G) u v \<noteq> None"
proof (induction es arbitrary: G)
  case Nil
  then show ?case by simp
next
  case (Cons e es)
  show ?case
  proof (cases "e = (u, v, w)")
    case True
    have "weight (nx_add_edge u v w G) u v \<noteq> None"
      by (simp add: weight_nx_add_edge_fwd)
    then show ?thesis
      using True by (simp add: replay_keeps del: not_None_eq)
  next
    case False
    with Cons.prems have "(u, v, w) \<in> set es" by simp
    then show ?thesis
      using Cons.IH by (cases e) simp
  qed
qed

lemma replay_agrees:
  assumes "\<And>u v w. (u, v, w) \<in> set es \<Longrightarrow> W u v = Some w \<and> W v u = Some w"
    and "\<And>x y c. weight G x y = Some c \<Longrightarrow> W x y = Some c"
    and "weight (fold (\<lambda>(u, v, w). nx_add_edge u v w) es G) x y = Some c"
  shows "W x y = Some c"
  using assms
proof (induction es arbitrary: G)
  case Nil
  from Nil(3) have "weight G x y = Some c" by simp
  then show ?case by (rule Nil(2))
next
  case (Cons e es)
  obtain u v w where e: "e = (u, v, w)" by (cases e)
  have "(u, v, w) \<in> set (e # es)" by (simp add: e)
  then have "W u v = Some w \<and> W v u = Some w" by (rule Cons.prems(1))
  then have uv: "W u v = Some w" and vu: "W v u = Some w" by blast+
  have G: "\<forall>x y c. weight G x y = Some c \<longrightarrow> W x y = Some c"
    using Cons.prems(2) by blast
  have step: "W x' y' = Some c'" if "weight (nx_add_edge u v w G) x' y' = Some c'" for x' y' c'
    using G uv vu that by (rule nx_add_edge_agrees)
  have rest: "W u' v' = Some w' \<and> W v' u' = Some w'" if "(u', v', w') \<in> set es" for u' v' w'
  proof -
    from that have "(u', v', w') \<in> set (e # es)" by simp
    then show ?thesis by (rule Cons.prems(1))
  qed
  have "weight (fold (\<lambda>(u, v, w). nx_add_edge u v w) es (nx_add_edge u v w G)) x y = Some c"
    using Cons.prems(3) by (simp add: e)
  with rest step show ?case by (rule Cons.IH)
qed

text \<open>
  For a matrix reached by \<open>add_edge\<close> and \<open>reset\<close> calls, the graph the solver
  searches has the entries and the nodes of the matrix.
\<close>

lemma graph_of_run_weight:
  "weight (graph_of (run ops)) x y = weight (adjacency_matrix (run ops)) x y"
proof -
  let ?m = "adjacency_matrix (run ops)"
  let ?W = "weight ?m"
  have it: "(u, v, w) \<in> set (items ?m) \<longleftrightarrow> ?W u v = Some w" for u v w
    by (rule items_iff [OF run_distinct_keys run_rows])
  have sym: "?W u v = ?W v u" for u v
    by (rule run_symmetric)
  have ent: "?W u v = Some w \<and> ?W v u = Some w" if "(u, v, w) \<in> set (items ?m)" for u v w
    using that it [of u v w] sym [of u v] by simp
  have agree: "?W x y = Some c" if "weight (graph_of (run ops)) x y = Some c" for x y c
  proof (rule replay_agrees [where W = ?W and G = "[]" and es = "items ?m"])
    show "?W u v = Some w \<and> ?W v u = Some w" if "(u, v, w) \<in> set (items ?m)" for u v w
      using that by (rule ent)
    show "?W x y = Some c" if "weight [] x y = Some c" for x y c
      using that by (simp add: weight_empty)
    show "weight (fold (\<lambda>(u, v, w). nx_add_edge u v w) (items ?m) []) x y = Some c"
      using that by (simp only: graph_of_items)
  qed
  show ?thesis
  proof (cases "?W x y")
    case None
    show ?thesis
    proof (cases "weight (graph_of (run ops)) x y")
      case None
      with \<open>?W x y = None\<close> show ?thesis by simp
    next
      case (Some c)
      then have "?W x y = Some c" by (rule agree)
      with Some show ?thesis by simp
    qed
  next
    case (Some c)
    then have "(x, y, c) \<in> set (items ?m)" by (simp add: it)
    then have "weight (graph_of (run ops)) x y \<noteq> None"
      unfolding graph_of_items by (rule replay_covers)
    then obtain c' where c': "weight (graph_of (run ops)) x y = Some c'" by auto
    then have "?W x y = Some c'" by (rule agree)
    with Some c' show ?thesis by simp
  qed
qed

lemma graph_of_run_nodes:
  "set (nx_nodes (graph_of (run ops))) = set (keys (adjacency_matrix (run ops)))"
proof
  let ?G = "graph_of (run ops)"
  let ?m = "adjacency_matrix (run ops)"
  show "set (nx_nodes ?G) \<subseteq> set (keys ?m)"
  proof
    fix x assume "x \<in> set (nx_nodes ?G)"
    then have "x \<in> set (keys ?G)" by (simp add: nx_nodes_def)
    with graph_of_has_edge [of "run ops"] obtain y c where "weight ?G x y = Some c"
      by blast
    then have "weight ?m x y = Some c" by (simp add: graph_of_run_weight)
    then show "x \<in> set (keys ?m)" by (rule weight_Some_key)
  qed
  show "set (keys ?m) \<subseteq> set (nx_nodes ?G)"
  proof
    fix x assume "x \<in> set (keys ?m)"
    with run_has_edge [of ops] obtain y c where "weight ?m x y = Some c"
      by blast
    then have "weight ?G x y = Some c" by (simp add: graph_of_run_weight)
    then have "x \<in> set (keys ?G)" by (rule weight_Some_key)
    then show "x \<in> set (nx_nodes ?G)" by (simp add: nx_nodes_def)
  qed
qed

section \<open>What the solver's answer depends on\<close>

lemma sum_weights_cong:
  assumes "\<And>u v. weight G1 u v = weight G2 u v"
  shows "sum_weights G1 es = sum_weights G2 es"
  by (simp only: sum_weights_char assms)

lemma tour_distance_cong:
  assumes "\<And>u v. weight G1 u v = weight G2 u v"
  shows "tour_distance G1 r = tour_distance G2 r"
proof (cases r)
  case Nil
  then show ?thesis by simp
next
  case (Cons u rest)
  have "cycle_cost G1 (u # rest) = cycle_cost G2 (u # rest)"
    unfolding cycle_cost_def using assms by (rule sum_weights_cong)
  then show ?thesis
    by (simp only: Cons tour_distance_cycle_cost)
qed

lemma search_cong:
  assumes "\<And>u v. weight G1 u v = weight G2 u v"
  shows "search G1 s ps st = search G2 s ps st"
proof (induction ps arbitrary: st)
  case Nil
  then show ?case by simp
next
  case (Cons p ps)
  obtain m0 b0 where st: "st = (m0, b0)" by (cases st)
  have td: "tour_distance G1 (s # p) = tour_distance G2 (s # p)"
    using assms by (rule tour_distance_cong)
  show ?case
  proof (cases "tour_distance G2 (s # p)")
    case (Inl e)
    with td show ?thesis by (simp add: st)
  next
    case (Inr d)
    with td show ?thesis by (simp add: st Cons.IH)
  qed
qed

text \<open>
  Two enumerations of the same candidates: both raise, or both find the same minimum
  (not necessarily on the same route).
\<close>

lemma search_order:
  assumes same: "set ps = set qs" and ne: "ps \<noteq> []"
  shows "(search G s ps (Infty, None) = Inl KeyError \<and> search G s qs (Infty, None) = Inl KeyError)
       \<or> (\<exists>p q d. search G s ps (Infty, None) = Inr (Fin d, Some (s # p)) \<and>
                  search G s qs (Infty, None) = Inr (Fin d, Some (s # q)))"
proof (cases "\<forall>p \<in> set ps. \<exists>d. tour_distance G (s # p) = Inr d")
  case True
  from ne same have ne': "qs \<noteq> []" by auto
  from True obtain r1 where "search G s ps (Infty, None) = Inr r1"
    using search_defined [of G s ps "(Infty, None)"] by blast
  then obtain m1 b1 where r1: "search G s ps (Infty, None) = Inr (m1, b1)"
    by (cases r1) auto
  from True same obtain r2 where "search G s qs (Infty, None) = Inr r2"
    using search_defined [of G s qs "(Infty, None)"] by blast
  then obtain m2 b2 where r2: "search G s qs (Infty, None) = Inr (m2, b2)"
    by (cases r2) auto
  from search_initial [OF r1 ne] obtain p d where p: "p \<in> set ps" and m1: "m1 = Fin d"
    and b1: "b1 = Some (s # p)" and dp: "tour_distance G (s # p) = Inr d"
    by blast
  from search_initial [OF r2 ne'] obtain q e where q: "q \<in> set qs" and m2: "m2 = Fin e"
    and b2: "b2 = Some (s # q)" and dq: "tour_distance G (s # q) = Inr e"
    by blast
  from search_lower [OF r1] q same dq have "\<not> dist_less e m1" by blast
  with m1 have "d \<le> e" by simp
  moreover from search_lower [OF r2] p same dp have "\<not> dist_less d m2" by blast
  with m2 have "e \<le> d" by simp
  ultimately have "d = e" by simp
  with r1 r2 m1 m2 b1 b2 show ?thesis by blast
next
  case False
  then have n1: "\<not> (\<exists>r. search G s ps (Infty, None) = Inr r)"
    using search_defined [of G s ps "(Infty, None)"] by blast
  from False same have n2: "\<not> (\<exists>r. search G s qs (Infty, None) = Inr r)"
    using search_defined [of G s qs "(Infty, None)"] by blast
  from n1 obtain e1 where e1: "search G s ps (Infty, None) = Inl e1"
    by (cases "search G s ps (Infty, None)") auto
  from n2 obtain e2 where e2: "search G s qs (Infty, None) = Inl e2"
    by (cases "search G s qs (Infty, None)") auto
  from search_error [OF e1] search_error [OF e2] e1 e2 show ?thesis by simp
qed

lemma same_candidates:
  assumes "set xs = set ys" and "distinct xs" and "distinct ys"
  shows "set (permutations (filter P xs)) = set (permutations (filter P ys))"
proof -
  have "set (filter P xs) = set (filter P ys)" using assms(1) by simp
  moreover have "distinct (filter P xs)" "distinct (filter P ys)"
    using assms(2,3) by simp_all
  ultimately have "mset (filter P xs) = mset (filter P ys)"
    by (simp only: set_eq_iff_mset_eq_distinct)
  then show ?thesis by (simp only: set_permutations)
qed

text \<open>The cost found depends on the nodes and the weights only, not on their order.\<close>

lemma solve_same_content:
  assumes nodes: "set (nx_nodes (graph_of gm1)) = set (nx_nodes (graph_of gm2))"
    and weights: "\<And>u v. weight (graph_of gm1) u v = weight (graph_of gm2) u v"
  shows "(solve gm1 s = Inl KeyError \<and> solve gm2 s = Inl KeyError)
       \<or> (solve gm1 s = Inr (Refused StartCityMissing) \<and> solve gm2 s = Inr (Refused StartCityMissing))
       \<or> (\<exists>r1 r2 c. solve gm1 s = Inr (Best (Some r1) (Fin c)) \<and>
                     solve gm2 s = Inr (Best (Some r2) (Fin c)))"
proof (cases "s \<in> set (nx_nodes (graph_of gm1))")
  case False
  with nodes show ?thesis by (simp add: solve_unfold)
next
  case True
  let ?ps = "permutations (filter (\<lambda>node. node \<noteq> s) (nx_nodes (graph_of gm1)))"
  let ?qs = "permutations (filter (\<lambda>node. node \<noteq> s) (nx_nodes (graph_of gm2)))"
  from True nodes have s2: "s \<in> set (nx_nodes (graph_of gm2))" by simp
  have same: "set ?ps = set ?qs"
    using nodes distinct_nodes distinct_nodes by (rule same_candidates)
  have cong: "search (graph_of gm2) s ?qs (Infty, None) = search (graph_of gm1) s ?qs (Infty, None)"
    using weights [symmetric] by (rule search_cong)
  from search_order [OF same permutations_nonempty, of "graph_of gm1" s]
  show ?thesis
  proof
    assume "search (graph_of gm1) s ?ps (Infty, None) = Inl KeyError \<and>
            search (graph_of gm1) s ?qs (Infty, None) = Inl KeyError"
    with True s2 cong show ?thesis by (simp add: solve_unfold)
  next
    assume "\<exists>p q d. search (graph_of gm1) s ?ps (Infty, None) = Inr (Fin d, Some (s # p)) \<and>
                    search (graph_of gm1) s ?qs (Infty, None) = Inr (Fin d, Some (s # q))"
    then obtain p q d where "search (graph_of gm1) s ?ps (Infty, None) = Inr (Fin d, Some (s # p))"
      and "search (graph_of gm1) s ?qs (Infty, None) = Inr (Fin d, Some (s # q))"
      by blast
    with True s2 cong have "solve gm1 s = Inr (Best (Some (s # p)) (Fin d))"
      and "solve gm2 s = Inr (Best (Some (s # q)) (Fin d))"
      by (simp_all add: solve_unfold)
    then show ?thesis by blast
  qed
qed

text \<open>With the same node order as well, the whole answer is the same.\<close>

lemma solve_same_order:
  assumes nodes: "nx_nodes (graph_of gm1) = nx_nodes (graph_of gm2)"
    and weights: "\<And>u v. weight (graph_of gm1) u v = weight (graph_of gm2) u v"
  shows "solve gm1 s = solve gm2 s"
proof -
  have "search (graph_of gm1) s ps (Infty, None) = search (graph_of gm2) s ps (Infty, None)" for ps
    using weights by (rule search_cong)
  then show ?thesis
    by (simp add: solve_unfold nodes)
qed

section \<open>The order of the nodes\<close>

lemma keys_nx_add_edge_list: "keys (nx_add_edge u v w G) = add_new v (add_new u (keys G))"
  by (simp only: nx_add_edge_def keys_set_entry_list keys_ensure_key_list add_new_def)

lemma keys_replay:
  "keys (fold (\<lambda>(u, v, w). nx_add_edge u v w) es G) =
     fold (\<lambda>(city1, city2, distance) ks. add_new city2 (add_new city1 ks)) es (keys G)"
proof (induction es arbitrary: G)
  case Nil
  then show ?case by simp
next
  case (Cons e es)
  obtain u v w where e: "e = (u, v, w)" by (cases e)
  show ?case
    by (simp add: e Cons.IH keys_nx_add_edge_list)
qed

lemma nodes_node_order: "nx_nodes (graph_of gm) = node_order (adjacency_matrix gm)"
proof -
  have "keys ([] :: nx_graph) = []" by (simp add: keys_def)
  then show ?thesis
    unfolding nx_nodes_def graph_of_items node_order_def keys_replay by (simp only:)
qed

section \<open>Which of the cheapest candidates is kept\<close>

lemma dist_less_trans:
  assumes "dist_less a m" and "\<not> dist_less b m"
  shows "a < b"
  using assms by (cases m) auto

text \<open>
  The loop returns its starting state when no candidate is strictly cheaper, and
  otherwise the first candidate of least cost: every candidate before it costs strictly
  more, every candidate after it at least as much.
\<close>

lemma search_first:
  assumes "search G s ps (m0, b0) = Inr (md, br)"
  shows "((md, br) = (m0, b0) \<and>
            (\<forall>p \<in> set ps. \<forall>e. tour_distance G (s # p) = Inr e \<longrightarrow> \<not> dist_less e m0))
       \<or> (\<exists>xs p ys d. ps = xs @ p # ys \<and> md = Fin d \<and> br = Some (s # p) \<and>
             tour_distance G (s # p) = Inr d \<and> dist_less d m0 \<and>
             (\<forall>x \<in> set xs. \<forall>e. tour_distance G (s # x) = Inr e \<longrightarrow> d < e) \<and>
             (\<forall>y \<in> set ys. \<forall>e. tour_distance G (s # y) = Inr e \<longrightarrow> d \<le> e))"
  using assms
proof (induction ps arbitrary: m0 b0)
  case Nil
  then show ?case by simp
next
  case (Cons q qs)
  from Cons.prems obtain c where c: "tour_distance G (s # q) = Inr c"
    by (auto split: sum.splits)
  show ?case
  proof (cases "dist_less c m0")
    case True
    with Cons.prems c have rec: "search G s qs (Fin c, Some (s # q)) = Inr (md, br)"
      by simp
    from Cons.IH [OF rec] show ?thesis
    proof
      assume a: "(md, br) = (Fin c, Some (s # q)) \<and>
        (\<forall>p \<in> set qs. \<forall>e. tour_distance G (s # p) = Inr e \<longrightarrow> \<not> dist_less e (Fin c))"
      then have later: "\<forall>y \<in> set qs. \<forall>e. tour_distance G (s # y) = Inr e \<longrightarrow> c \<le> e"
        by auto
      have "q # qs = [] @ q # qs" by simp
      moreover have "\<forall>x \<in> set ([] :: city list list). \<forall>e. tour_distance G (s # x) = Inr e \<longrightarrow> c < e"
        by simp
      ultimately show ?thesis
        using a c True later by blast
    next
      assume "\<exists>xs p ys d. qs = xs @ p # ys \<and> md = Fin d \<and> br = Some (s # p) \<and>
             tour_distance G (s # p) = Inr d \<and> dist_less d (Fin c) \<and>
             (\<forall>x \<in> set xs. \<forall>e. tour_distance G (s # x) = Inr e \<longrightarrow> d < e) \<and>
             (\<forall>y \<in> set ys. \<forall>e. tour_distance G (s # y) = Inr e \<longrightarrow> d \<le> e)"
      then obtain xs p ys d where split: "qs = xs @ p # ys" and md: "md = Fin d"
        and br: "br = Some (s # p)" and dp: "tour_distance G (s # p) = Inr d"
        and less: "dist_less d (Fin c)"
        and before: "\<forall>x \<in> set xs. \<forall>e. tour_distance G (s # x) = Inr e \<longrightarrow> d < e"
        and after: "\<forall>y \<in> set ys. \<forall>e. tour_distance G (s # y) = Inr e \<longrightarrow> d \<le> e"
        by blast
      from less have dc: "d < c" by simp
      have split': "q # qs = (q # xs) @ p # ys" using split by simp
      have before': "\<forall>x \<in> set (q # xs). \<forall>e. tour_distance G (s # x) = Inr e \<longrightarrow> d < e"
        using before c dc by auto
      have "dist_less d m0"
        using True dc by (cases m0) auto
      with split' md br dp before' after show ?thesis by blast
    qed
  next
    case False
    with Cons.prems c have rec: "search G s qs (m0, b0) = Inr (md, br)"
      by simp
    from Cons.IH [OF rec] show ?thesis
    proof
      assume a: "(md, br) = (m0, b0) \<and>
        (\<forall>p \<in> set qs. \<forall>e. tour_distance G (s # p) = Inr e \<longrightarrow> \<not> dist_less e m0)"
      with c False show ?thesis by auto
    next
      assume "\<exists>xs p ys d. qs = xs @ p # ys \<and> md = Fin d \<and> br = Some (s # p) \<and>
             tour_distance G (s # p) = Inr d \<and> dist_less d m0 \<and>
             (\<forall>x \<in> set xs. \<forall>e. tour_distance G (s # x) = Inr e \<longrightarrow> d < e) \<and>
             (\<forall>y \<in> set ys. \<forall>e. tour_distance G (s # y) = Inr e \<longrightarrow> d \<le> e)"
      then obtain xs p ys d where split: "qs = xs @ p # ys" and md: "md = Fin d"
        and br: "br = Some (s # p)" and dp: "tour_distance G (s # p) = Inr d"
        and less: "dist_less d m0"
        and before: "\<forall>x \<in> set xs. \<forall>e. tour_distance G (s # x) = Inr e \<longrightarrow> d < e"
        and after: "\<forall>y \<in> set ys. \<forall>e. tour_distance G (s # y) = Inr e \<longrightarrow> d \<le> e"
        by blast
      from less False have dc: "d < c" by (rule dist_less_trans)
      have split': "q # qs = (q # xs) @ p # ys" using split by simp
      have before': "\<forall>x \<in> set (q # xs). \<forall>e. tour_distance G (s # x) = Inr e \<longrightarrow> d < e"
        using before c dc by auto
      from split' md br dp less before' after show ?thesis by blast
    qed
  qed
qed

lemma find_first:
  assumes "\<forall>x \<in> set xs. \<not> P x" and "P y"
  shows "find P (xs @ y # ys) = Some y"
  using assms by (induction xs) auto

lemma solve_first_cheapest:
  assumes "solve gm s = Inr (Best (Some route) (Fin c))"
  shows "find (\<lambda>r. cycle_cost (graph_of gm) r = Some c) (candidates gm s) = Some route \<and>
         (\<forall>r \<in> set (candidates gm s). \<forall>e. cycle_cost (graph_of gm) r = Some e \<longrightarrow> c \<le> e)"
proof -
  let ?G = "graph_of gm"
  let ?ps = "permutations (filter (\<lambda>node. node \<noteq> s) (nx_nodes ?G))"
  let ?P = "\<lambda>r. cycle_cost ?G r = Some c"
  from assms have st: "s \<in> set (nx_nodes ?G)"
    by (auto simp: solve_unfold split: if_splits)
  with assms have res: "search ?G s ?ps (Infty, None) = Inr (Fin c, Some route)"
    by (auto simp: solve_unfold split: sum.splits)
  from search_first [OF res]
  obtain xs p ys d where split: "?ps = xs @ p # ys" and md: "Fin c = Fin d"
    and br: "Some route = Some (s # p)" and dp: "tour_distance ?G (s # p) = Inr d"
    and before: "\<forall>x \<in> set xs. \<forall>e. tour_distance ?G (s # x) = Inr e \<longrightarrow> d < e"
    and after: "\<forall>y \<in> set ys. \<forall>e. tour_distance ?G (s # y) = Inr e \<longrightarrow> d \<le> e"
    by auto
  from md have cd: "d = c" by simp
  from br have route: "route = s # p" by simp
  have cand: "candidates gm s = map ((#) s) xs @ (s # p) # map ((#) s) ys"
    by (simp add: candidates_def split)
  have Pp: "?P (s # p)"
    using tour_distance_Inr [OF dp] cd by simp
  have notP: "\<not> ?P r" if "r \<in> set (map ((#) s) xs)" for r
  proof
    assume "?P r"
    from that obtain x where x: "x \<in> set xs" and r: "r = s # x" by auto
    from \<open>?P r\<close> r have "cycle_cost ?G (s # x) = Some c" by simp
    then have "tour_distance ?G (s # x) = Inr c"
      by (rule tour_distance_Some)
    with before x cd show False by auto
  qed
  have first: "find ?P (candidates gm s) = Some route"
    unfolding cand route using notP Pp by (intro find_first) auto
  have least: "c \<le> e" if r: "r \<in> set (candidates gm s)" and e: "cycle_cost ?G r = Some e" for r e
  proof -
    from r obtain x where x: "x \<in> set xs \<or> x = p \<or> x \<in> set ys" and rx: "r = s # x"
      unfolding cand by auto
    from e rx have "cycle_cost ?G (s # x) = Some e" by simp
    then have td: "tour_distance ?G (s # x) = Inr e"
      by (rule tour_distance_Some)
    from x show ?thesis
    proof (elim disjE)
      assume "x \<in> set xs"
      with before td cd show ?thesis by auto
    next
      assume "x = p"
      with td dp cd show ?thesis by simp
    next
      assume "x \<in> set ys"
      with after td cd show ?thesis by auto
    qed
  qed
  from first least show ?thesis by blast
qed

section \<open>Graphs with a single node\<close>

text \<open>
  C7 speaks of a graph whose node set is a single node.  A node enters the graph only
  as an end of an edge, so such a graph needs a road from a city to itself, which
  \<open>Application.add_edge\<close> refuses: nothing the application builds has exactly one
  node, and the solver is never called on such a graph.
\<close>

lemma app_run_snoc: "app_run (ops @ [x]) = app_apply x (app_run ops)"
  by (simp add: app_run_def)

lemma two_keys:
  assumes "u \<noteq> v"
  shows "length (keys (adjacency_matrix (run (ops @ [AddEdge u v w])))) \<noteq> 1"
proof -
  let ?m = "adjacency_matrix (run (ops @ [AddEdge u v w]))"
  have "{u, v} \<subseteq> set (keys ?m)"
    by (simp add: run_snoc matrix_add_edge keys_nx_add_edge)
  then have "card {u, v} \<le> card (set (keys ?m))"
    by (intro card_mono) simp_all
  with assms have "2 \<le> card (set (keys ?m))" by simp
  also have "\<dots> = length (keys ?m)"
    using run_distinct_keys [of "ops @ [AddEdge u v w]"] by (simp add: distinct_card)
  finally show ?thesis by simp
qed

text \<open>
  What the application builds is reached by \<open>GraphModel.add_edge\<close> calls between
  distinct cities and resets, and never has exactly one key.
\<close>

lemma app_run_keys:
  "\<exists>core. app_run ops = run core \<and> length (keys (adjacency_matrix (run core))) \<noteq> 1"
proof (induction ops rule: rev_induct)
  case Nil
  have "app_run [] = run []" by (simp add: app_run_def run_def)
  moreover have "length (keys (adjacency_matrix (run []))) \<noteq> 1"
    by (simp add: run_def new_graph_model_def keys_def)
  ultimately show ?case by blast
next
  case (snoc x ops)
  then obtain core where core: "app_run ops = run core"
    and len: "length (keys (adjacency_matrix (run core))) \<noteq> 1"
    by blast
  show ?case
  proof (cases x)
    case AppReset
    have "app_run (ops @ [x]) = run (core @ [Reset])"
      by (simp add: AppReset app_run_snoc run_snoc core)
    moreover have "length (keys (adjacency_matrix (run (core @ [Reset])))) \<noteq> 1"
      by (simp add: run_snoc reset_def keys_def)
    ultimately show ?thesis by blast
  next
    case (AppAddEdge u v parsed)
    show ?thesis
    proof (cases "\<exists>w. parsed = Some w \<and> u \<noteq> v \<and> \<not> w < 0")
      case True
      then obtain w where w: "parsed = Some w" "u \<noteq> v" "\<not> w < 0" by blast
      then have "app_run (ops @ [x]) = run (core @ [AddEdge u v w])"
        by (simp add: AppAddEdge app_run_snoc run_snoc core app_add_edge_def)
      with two_keys [OF w(2), of core w] show ?thesis by blast
    next
      case False
      then have "app_run (ops @ [x]) = run core"
        by (cases parsed) (auto simp: AppAddEdge app_run_snoc core app_add_edge_def)
      with len show ?thesis by blast
    qed
  qed
qed

lemma app_never_single_node: "length (nx_nodes (graph_of (app_run ops))) \<noteq> 1"
proof -
  from app_run_keys [of ops] obtain core where core: "app_run ops = run core"
    and len: "length (keys (adjacency_matrix (run core))) \<noteq> 1"
    by blast
  have "length (nx_nodes (graph_of (run core))) = card (set (nx_nodes (graph_of (run core))))"
    using distinct_nodes [of "run core"] by (simp add: distinct_card)
  also have "\<dots> = card (set (keys (adjacency_matrix (run core))))"
    by (simp only: graph_of_run_nodes)
  also have "\<dots> = length (keys (adjacency_matrix (run core)))"
    using run_distinct_keys [of core] by (simp add: distinct_card)
  finally show ?thesis
    using len core by simp
qed

section \<open>The claim about insertion order\<close>

text \<open>
  C8, as the code has it.  Two sequences of \<open>add_edge\<close> (and \<open>reset\<close>) calls that
  leave the same node set and the same weight function give, for every start node, the
  same kind of answer with the same cost: both calls raise \<open>KeyError\<close>, or both
  return the refusal for a missing start city, or both return a route of one and the same
  cost.  Nothing is sorted: the nodes are enumerated in the order in which the graph
  built by \<open>get_graph\<close> lists them, which is the order in which the cities first
  occur when the adjacency matrix is read row by row, the key of a row before each of its
  neighbours; that order follows the insertions.  The route returned is the first
  candidate of least cost in that enumeration, so the two routes may differ.  Where the
  two matrices give the same node order in this sense, the answers are identical.
\<close>

theorem insertion_order:
  assumes nodes: "set (keys (adjacency_matrix (run ops1))) = set (keys (adjacency_matrix (run ops2)))"
    and weights: "\<forall>u v. weight (adjacency_matrix (run ops1)) u v = weight (adjacency_matrix (run ops2)) u v"
  shows "((solve (run ops1) s = Inl KeyError \<and> solve (run ops2) s = Inl KeyError)
          \<or> (solve (run ops1) s = Inr (Refused StartCityMissing) \<and>
              solve (run ops2) s = Inr (Refused StartCityMissing))
          \<or> (\<exists>r1 r2 c. solve (run ops1) s = Inr (Best (Some r1) (Fin c)) \<and>
                        solve (run ops2) s = Inr (Best (Some r2) (Fin c))))
       \<and> nx_nodes (graph_of (run ops1)) = node_order (adjacency_matrix (run ops1))
       \<and> (\<forall>route c. solve (run ops1) s = Inr (Best (Some route) (Fin c)) \<longrightarrow>
             find (\<lambda>r. cycle_cost (graph_of (run ops1)) r = Some c) (candidates (run ops1) s) =
               Some route \<and>
             (\<forall>r \<in> set (candidates (run ops1) s).
                \<forall>e. cycle_cost (graph_of (run ops1)) r = Some e \<longrightarrow> c \<le> e))
       \<and> (node_order (adjacency_matrix (run ops1)) = node_order (adjacency_matrix (run ops2)) \<longrightarrow>
            solve (run ops1) s = solve (run ops2) s)"
proof -
  have n: "set (nx_nodes (graph_of (run ops1))) = set (nx_nodes (graph_of (run ops2)))"
    by (simp only: graph_of_run_nodes nodes)
  have w: "weight (graph_of (run ops1)) u v = weight (graph_of (run ops2)) u v" for u v
    using weights by (simp only: graph_of_run_weight)
  from n w have kind: "(solve (run ops1) s = Inl KeyError \<and> solve (run ops2) s = Inl KeyError)
          \<or> (solve (run ops1) s = Inr (Refused StartCityMissing) \<and>
              solve (run ops2) s = Inr (Refused StartCityMissing))
          \<or> (\<exists>r1 r2 c. solve (run ops1) s = Inr (Best (Some r1) (Fin c)) \<and>
                        solve (run ops2) s = Inr (Best (Some r2) (Fin c)))"
    by (rule solve_same_content)
  have order: "nx_nodes (graph_of (run ops1)) = node_order (adjacency_matrix (run ops1))"
    by (rule nodes_node_order)
  have first: "\<forall>route c. solve (run ops1) s = Inr (Best (Some route) (Fin c)) \<longrightarrow>
             find (\<lambda>r. cycle_cost (graph_of (run ops1)) r = Some c) (candidates (run ops1) s) =
               Some route \<and>
             (\<forall>r \<in> set (candidates (run ops1) s).
                \<forall>e. cycle_cost (graph_of (run ops1)) r = Some e \<longrightarrow> c \<le> e)"
    using solve_first_cheapest [of "run ops1" s] by blast
  have same: "solve (run ops1) s = solve (run ops2) s"
    if "node_order (adjacency_matrix (run ops1)) = node_order (adjacency_matrix (run ops2))"
  proof -
    from that have "nx_nodes (graph_of (run ops1)) = nx_nodes (graph_of (run ops2))"
      by (simp only: nodes_node_order)
    then show ?thesis using w by (rule solve_same_order)
  qed
  from kind order first same show ?thesis by blast
qed

lemma triangle_matrix:
  "adjacency_matrix triangle =
     [(''A'', [(''B'', 10), (''C'', 20)]), (''B'', [(''A'', 10), (''C'', 15)]),
      (''C'', [(''B'', 15), (''A'', 20)])]"
  by code_simp

lemma triangle'_matrix:
  "adjacency_matrix triangle' =
     [(''A'', [(''C'', 20), (''B'', 10)]), (''C'', [(''A'', 20), (''B'', 15)]),
      (''B'', [(''A'', 10), (''C'', 15)])]"
  by code_simp

lemma triangles_same_weights:
  "weight (adjacency_matrix triangle) u v = weight (adjacency_matrix triangle') u v"
  unfolding triangle_matrix triangle'_matrix weight_def
  by (simp split: option.splits)

lemma triangle_rewritten_matrix: "adjacency_matrix triangle_rewritten = adjacency_matrix triangle"
  by code_simp

theorem insertion_order_witness:
  "set (keys (adjacency_matrix triangle)) = set (keys (adjacency_matrix triangle')) \<and>
   (\<forall>u v. weight (adjacency_matrix triangle) u v = weight (adjacency_matrix triangle') u v) \<and>
   (\<exists>r1 r2 c. solve triangle ''A'' = Inr (Best (Some r1) (Fin c)) \<and>
               solve triangle' ''A'' = Inr (Best (Some r2) (Fin c))) \<and>
   nx_nodes (graph_of triangle) = node_order (adjacency_matrix triangle) \<and>
   solve triangle ''A'' = Inr (Best (Some [''A'', ''B'', ''C'']) (Fin 45)) \<and>
   find (\<lambda>r. cycle_cost (graph_of triangle) r = Some 45) (candidates triangle ''A'') =
     Some [''A'', ''B'', ''C''] \<and>
   [''A'', ''C'', ''B''] \<in> set (candidates triangle ''A'') \<and>
   cycle_cost (graph_of triangle) [''A'', ''C'', ''B''] = Some 45 \<and>
   (45 :: int) \<le> 45 \<and>
   node_order (adjacency_matrix triangle) = node_order (adjacency_matrix triangle_rewritten) \<and>
   solve triangle ''A'' = solve triangle_rewritten ''A''"
proof -
  have k: "set (keys (adjacency_matrix triangle)) = set (keys (adjacency_matrix triangle'))"
    by code_simp
  have w: "\<forall>u v. weight (adjacency_matrix triangle) u v = weight (adjacency_matrix triangle') u v"
    using triangles_same_weights by blast
  have s: "solve triangle ''A'' = Inr (Best (Some [''A'', ''B'', ''C'']) (Fin 45))"
    by code_simp
  have other: "[''A'', ''C'', ''B''] \<in> set (candidates triangle ''A'')"
    by code_simp
  have cost: "cycle_cost (graph_of triangle) [''A'', ''C'', ''B''] = Some 45"
    by code_simp
  have n: "node_order (adjacency_matrix triangle) = node_order (adjacency_matrix triangle_rewritten)"
    by code_simp
  have k': "set (keys (adjacency_matrix triangle)) = set (keys (adjacency_matrix triangle_rewritten))"
    by (simp only: triangle_rewritten_matrix)
  have w': "\<forall>u v. weight (adjacency_matrix triangle) u v =
                 weight (adjacency_matrix triangle_rewritten) u v"
    by (simp only: triangle_rewritten_matrix) simp
  note one = insertion_order [OF k [unfolded triangle_def triangle'_def]
      w [unfolded triangle_def triangle'_def], of "''A''", folded triangle_def triangle'_def]
  note two = insertion_order [OF k' [unfolded triangle_def triangle_rewritten_def]
      w' [unfolded triangle_def triangle_rewritten_def], of "''A''",
      folded triangle_def triangle_rewritten_def]
  from one s
  have kind: "\<exists>r1 r2 c. solve triangle ''A'' = Inr (Best (Some r1) (Fin c)) \<and>
                    solve triangle' ''A'' = Inr (Best (Some r2) (Fin c))"
    by auto
  from one have order: "nx_nodes (graph_of triangle) = node_order (adjacency_matrix triangle)"
    by blast
  from one s
  have first: "find (\<lambda>r. cycle_cost (graph_of triangle) r = Some 45) (candidates triangle ''A'') =
     Some [''A'', ''B'', ''C'']"
    by blast
  from one s other cost have least: "(45 :: int) \<le> 45"
    by blast
  from two n have same: "solve triangle ''A'' = solve triangle_rewritten ''A''"
    by blast
  from k w kind order s first other cost least n same show ?thesis
    by blast
qed

text \<open>
  C8 as stated fails: the triangle entered in two orders has the same nodes and the same
  weights, both tours from \<open>A\<close> cost 45, and the two calls return different routes.
  Nothing sorts the nodes.
\<close>

theorem insertion_order_counterexample:
  "set (keys (adjacency_matrix triangle)) = set (keys (adjacency_matrix triangle')) \<and>
   (\<forall>u v. weight (adjacency_matrix triangle) u v = weight (adjacency_matrix triangle') u v) \<and>
   solve triangle ''A'' = Inr (Best (Some [''A'', ''B'', ''C'']) (Fin 45)) \<and>
   solve triangle' ''A'' = Inr (Best (Some [''A'', ''C'', ''B'']) (Fin 45)) \<and>
   solve triangle ''A'' \<noteq> solve triangle' ''A''"
proof -
  have k: "set (keys (adjacency_matrix triangle)) = set (keys (adjacency_matrix triangle'))"
    by code_simp
  have w: "\<forall>u v. weight (adjacency_matrix triangle) u v = weight (adjacency_matrix triangle') u v"
    using triangles_same_weights by blast
  have s: "solve triangle ''A'' = Inr (Best (Some [''A'', ''B'', ''C'']) (Fin 45))"
    by code_simp
  have s': "solve triangle' ''A'' = Inr (Best (Some [''A'', ''C'', ''B'']) (Fin 45))"
    by code_simp
  from k w s s' show ?thesis by simp
qed

text \<open>
  The order of the keys of the matrix does not fix the order of the nodes: the two
  squares have the same keys in the same order and the same entries, list their nodes
  differently, and get different routes of the same cost.
\<close>

lemma key_order_is_not_node_order:
  "keys (adjacency_matrix square) = keys (adjacency_matrix square') \<and>
   set (items (adjacency_matrix square)) = set (items (adjacency_matrix square')) \<and>
   node_order (adjacency_matrix square) = [''A'', ''B'', ''C'', ''D''] \<and>
   node_order (adjacency_matrix square') = [''A'', ''B'', ''D'', ''C''] \<and>
   solve square ''A'' = Inr (Best (Some [''A'', ''B'', ''C'', ''D'']) (Fin 4)) \<and>
   solve square' ''A'' = Inr (Best (Some [''A'', ''B'', ''D'', ''C'']) (Fin 4))"
  by code_simp

end
